theory Spec2Isabelle
  imports Complex_Main "HOL-Library.Char_ord"
begin

section \<open>Strings\<close>

text \<open>
  JavaScript strings are modelled as \<^typ>\<open>string\<close>: one \<^typ>\<open>char\<close> per code unit, so the
  model covers the code units 0 to 255 (ASCII and Latin-1).
\<close>

text \<open>Characters are compared by their codes. The lower-case form of an upper-case
  letter (\<open>A\<close> to \<open>Z\<close>, and the Latin-1 capitals) is the code plus 32: bit 5 is set.\<close>

definition in_range :: "char \<Rightarrow> char \<Rightarrow> char \<Rightarrow> bool" where
  "in_range a b c = (a \<le> c \<and> c \<le> b)"

definition toLowerChar :: "char \<Rightarrow> char" where
  "toLowerChar c =
     (if in_range CHR ''A'' CHR ''Z'' c \<or> (in_range CHR 0xC0 CHR 0xDE c \<and> c \<noteq> CHR 0xD7)
      then (case c of Char b0 b1 b2 b3 b4 b5 b6 b7 \<Rightarrow> Char b0 b1 b2 b3 b4 True b6 b7)
      else c)"

definition toLowerCase :: "string \<Rightarrow> string" where
  "toLowerCase s = map toLowerChar s"

fun startsWith :: "string \<Rightarrow> string \<Rightarrow> bool" where
  "startsWith s [] = True"
| "startsWith [] (c # t) = False"
| "startsWith (d # s) (c # t) = (d = c \<and> startsWith s t)"

text \<open>\<^verbatim>\<open>s.includes(t)\<close>: \<open>t\<close> occurs in \<open>s\<close> as a contiguous substring.\<close>

fun str_includes :: "string \<Rightarrow> string \<Rightarrow> bool" where
  "str_includes [] t = (t = [])"
| "str_includes (c # s) t = (startsWith (c # s) t \<or> str_includes s t)"

text \<open>\<^verbatim>\<open>parts.join(sep)\<close> for an array of strings.\<close>

fun join_with :: "string \<Rightarrow> string list \<Rightarrow> string" where
  "join_with sep [] = []"
| "join_with sep [x] = x"
| "join_with sep (x # y # xs) = x @ sep @ join_with sep (y # xs)"

subsection \<open>Paths\<close>

text \<open>
  \<^verbatim>\<open>path.join\<close> of \<^verbatim>\<open>node:path\<close> (POSIX): the arguments that are not empty are joined with
  \<^verbatim>\<open>/\<close> and the result is normalised (\<open>normalize_path\<close> is \<^verbatim>\<open>path.normalize\<close>). \<open>split_on\<close> cuts a path at its separators;
  \<open>normalize_segments\<close> is the loop of \<^verbatim>\<open>normalizeString\<close> over the segments, \<open>res\<close> the
  segments kept so far: an empty segment and \<^verbatim>\<open>.\<close> are dropped, \<^verbatim>\<open>..\<close> removes the segment
  before it, and is kept only in a relative path that has nothing left to remove.
\<close>

fun split_on :: "char \<Rightarrow> string \<Rightarrow> string \<Rightarrow> string list" where
  "split_on sep cur [] = [cur]"
| "split_on sep cur (c # cs) =
     (if c = sep then cur # split_on sep [] cs else split_on sep (cur @ [c]) cs)"

fun normalize_segments :: "bool \<Rightarrow> string list \<Rightarrow> string list \<Rightarrow> string list" where
  "normalize_segments allowAboveRoot [] res = res"
| "normalize_segments allowAboveRoot (seg # segs) res =
     normalize_segments allowAboveRoot segs
       (if seg = [] \<or> seg = ''.'' then res
        else if seg = ''..'' then
          (if res \<noteq> [] \<and> last res \<noteq> ''..'' then butlast res
           else if allowAboveRoot then res @ [''..'']
           else res)
        else res @ [seg])"

definition normalize_path :: "string \<Rightarrow> string" where
  "normalize_path path =
     (if path = [] then ''.''
      else
        (let isAbsolute = (hd path = CHR ''/'');
             trailingSeparator = (last path = CHR ''/'');
             p = join_with ''/'' (normalize_segments (\<not> isAbsolute) (split_on CHR ''/'' [] path) [])
         in if p = [] then (if isAbsolute then ''/'' else if trailingSeparator then ''./'' else ''.'')
            else (if isAbsolute then ''/'' else []) @ p @ (if trailingSeparator then ''/'' else [])))"

definition join :: "string \<Rightarrow> string \<Rightarrow> string" where
  "join dir name =
     (if dir = [] \<and> name = [] then ''.''
      else if dir = [] then normalize_path name
      else if name = [] then normalize_path dir
      else normalize_path (dir @ ''/'' @ name))"

section \<open>Regular expressions\<close>

text \<open>
  The patterns of the scanners are JavaScript \<^verbatim>\<open>RegExp\<close> literals. They are embedded as
  values of \<open>regex\<close>, and \<open>rmatch\<close> is the backtracking matcher of the language
  specification: it lists, in the order backtracking tries them, the states in which a
  match of the pattern can end. The first state of the list is the match that
  \<^verbatim>\<open>exec\<close> returns.
\<close>

definition is_space :: "char \<Rightarrow> bool" where
  "is_space c = (in_range CHR 0x09 CHR 0x0D c \<or> c = CHR 0x20 \<or> c = CHR 0xA0)"

definition is_word :: "char \<Rightarrow> bool" where
  "is_word c =
     (in_range CHR ''0'' CHR ''9'' c \<or> in_range CHR ''A'' CHR ''Z'' c \<or> c = CHR ''_'' \<or>
      in_range CHR ''a'' CHR ''z'' c)"

definition is_line_terminator :: "char \<Rightarrow> bool" where
  "is_line_terminator c = (c = CHR 0x0A \<or> c = CHR 0x0D)"

text \<open>The upper-case form of an ASCII lower-case letter is the code minus 32: bit 5 is
  cleared; the lower-case form of an upper-case one has it set.\<close>

definition ascii_upper :: "char \<Rightarrow> char" where
  "ascii_upper c =
     (if in_range CHR ''a'' CHR ''z'' c
      then (case c of Char b0 b1 b2 b3 b4 b5 b6 b7 \<Rightarrow> Char b0 b1 b2 b3 b4 False b6 b7)
      else c)"

definition ascii_lower :: "char \<Rightarrow> char" where
  "ascii_lower c =
     (if in_range CHR ''A'' CHR ''Z'' c
      then (case c of Char b0 b1 b2 b3 b4 b5 b6 b7 \<Rightarrow> Char b0 b1 b2 b3 b4 True b6 b7)
      else c)"

text \<open>\<open>Canonicalize\<close> of the specification, for the patterns' ASCII letters: with the flag
  \<^verbatim>\<open>i\<close> a character is compared by its upper-case form.\<close>

definition canon :: "bool \<Rightarrow> char \<Rightarrow> char" where
  "canon ic c = (if ic then ascii_upper c else c)"

datatype citem =
    Ch char
  | Range char char
  | WordC
  | SpaceC
  | NotSpaceC

datatype regex =
    Eps
  | Lit char
  | Dot
  | CSet bool "citem list"
  | Bnd
  | Seq regex regex
  | Alt regex regex
  | Group nat regex
  | Backref nat
  | Rep bool nat "nat option" regex

fun item_has :: "bool \<Rightarrow> citem \<Rightarrow> char \<Rightarrow> bool" where
  "item_has ic (Ch a) c = (canon ic a = canon ic c)"
| "item_has ic (Range a b) c =
     (in_range a b c \<or> (ic \<and> (in_range a b (ascii_upper c) \<or> in_range a b (ascii_lower c))))"
| "item_has ic WordC c = is_word c"
| "item_has ic SpaceC c = is_space c"
| "item_has ic NotSpaceC c = (\<not> is_space c)"

fun set_has :: "bool \<Rightarrow> citem list \<Rightarrow> char \<Rightarrow> bool" where
  "set_has ic [] c = False"
| "set_has ic (i # items) c = (item_has ic i c \<or> set_has ic items c)"

text \<open>A run of literal characters.\<close>

fun str :: "string \<Rightarrow> regex" where
  "str [] = Eps"
| "str [c] = Lit c"
| "str (c # d # cs) = Seq (Lit c) (str (d # cs))"

text \<open>A sequence of patterns.\<close>

fun seqs :: "regex list \<Rightarrow> regex" where
  "seqs [] = Eps"
| "seqs [r] = r"
| "seqs (r # q # rs) = Seq r (seqs (q # rs))"

text \<open>
  A matcher state: the text still to be read, the character just before it (\<open>None\<close> at
  the start of the text), and the captures made so far, newest first.
\<close>

datatype mstate = MState (rest: string) (prev: "char option") (caps: "(nat \<times> string) list")

fun word_before :: "char option \<Rightarrow> bool" where
  "word_before None = False"
| "word_before (Some c) = is_word c"

fun word_after :: "string \<Rightarrow> bool" where
  "word_after [] = False"
| "word_after (c # cs) = is_word c"

text \<open>Reading one character that satisfies \<open>p\<close>.\<close>

fun step_char :: "(char \<Rightarrow> bool) \<Rightarrow> mstate \<Rightarrow> mstate list" where
  "step_char p (MState [] pv cs) = []"
| "step_char p (MState (d # ds) pv cs) = (if p d then [MState ds (Some d) cs] else [])"

text \<open>The text read between two states.\<close>

definition consumed :: "mstate \<Rightarrow> mstate \<Rightarrow> string" where
  "consumed st st' = take (length (rest st) - length (rest st')) (rest st)"

text \<open>Reading a copy of \<open>t\<close> (a back reference), compared as the flag says.\<close>

fun step_string :: "bool \<Rightarrow> string \<Rightarrow> mstate \<Rightarrow> mstate list" where
  "step_string ic [] st = [st]"
| "step_string ic (c # t) (MState [] pv cs) = []"
| "step_string ic (c # t) (MState (d # ds) pv cs) =
     (if canon ic d = canon ic c then step_string ic t (MState ds (Some d) cs) else [])"

fun rsize :: "regex \<Rightarrow> nat" where
  "rsize (Seq a b) = Suc (rsize a + rsize b)"
| "rsize (Alt a b) = Suc (rsize a + rsize b)"
| "rsize (Group n r) = Suc (rsize r)"
| "rsize (Rep g mn mx r) = Suc (rsize r + mn)"
| "rsize r = 0"

fun dec_max :: "nat option \<Rightarrow> nat option" where
  "dec_max None = None"
| "dec_max (Some k) = Some (k - 1)"

text \<open>
  \<open>rmatch ic r st\<close>: the flag \<^verbatim>\<open>i\<close>, the pattern, the state to match from. A quantifier
  \<open>Rep greedy min max r\<close> follows \<open>RepeatMatcher\<close>: once the minimum is reached an
  iteration that reads nothing is rejected, a greedy quantifier tries one more iteration
  before stopping and a lazy one stops first.
\<close>

function rmatch :: "bool \<Rightarrow> regex \<Rightarrow> mstate \<Rightarrow> mstate list" where
  "rmatch ic Eps st = [st]"
| "rmatch ic (Lit c) st = step_char (\<lambda>d. canon ic d = canon ic c) st"
| "rmatch ic Dot st = step_char (\<lambda>d. \<not> is_line_terminator d) st"
| "rmatch ic (CSet neg items) st = step_char (\<lambda>d. set_has ic items d \<noteq> neg) st"
| "rmatch ic Bnd st = (if word_before (prev st) \<noteq> word_after (rest st) then [st] else [])"
| "rmatch ic (Seq a b) st = concat (map (rmatch ic b) (rmatch ic a st))"
| "rmatch ic (Alt a b) st = rmatch ic a st @ rmatch ic b st"
| "rmatch ic (Group n r) st =
     map (\<lambda>st'. MState (rest st') (prev st') ((n, consumed st st') # caps st')) (rmatch ic r st)"
| "rmatch ic (Backref n) st =
     (case map_of (caps st) n of None \<Rightarrow> [st] | Some t \<Rightarrow> step_string ic t st)"
| "rmatch ic (Rep greedy mn mx r) st =
     (if mx = Some 0 then [st]
      else if mn \<noteq> 0 then
        concat (map (\<lambda>st'. rmatch ic (Rep greedy (mn - 1) (dec_max mx) r) st') (rmatch ic r st))
      else if greedy then
        concat (map (\<lambda>st'. if length (rest st') < length (rest st)
                            then rmatch ic (Rep greedy 0 (dec_max mx) r) st' else [])
                    (rmatch ic r st)) @ [st]
      else
        st # concat (map (\<lambda>st'. if length (rest st') < length (rest st)
                                 then rmatch ic (Rep greedy 0 (dec_max mx) r) st' else [])
                         (rmatch ic r st)))"
  by pat_completeness auto
termination
  by (relation "measures [\<lambda>(ic, r, st). rsize r, \<lambda>(ic, r, st). length (rest st)]") auto

lemmas rmatch_Rep = rmatch.simps(10)

declare rmatch.simps(10) [simp del]

text \<open>
  \<open>search\<close> is the loop of \<^verbatim>\<open>RegExpBuiltinExec\<close>: it tries the pattern at the current
  position and then at each later one; \<open>k\<close> is the index of the current position. It
  returns the index where the match starts, the matched text and the end state.
\<close>

definition first_match :: "bool \<Rightarrow> regex \<Rightarrow> char option \<Rightarrow> string \<Rightarrow> mstate option" where
  "first_match ic r pv s = (case rmatch ic r (MState s pv []) of [] \<Rightarrow> None | st # sts \<Rightarrow> Some st)"

fun search :: "bool \<Rightarrow> regex \<Rightarrow> char option \<Rightarrow> string \<Rightarrow> nat \<Rightarrow> (nat \<times> string \<times> mstate) option" where
  "search ic r pv [] k =
     (case first_match ic r pv [] of None \<Rightarrow> None | Some st \<Rightarrow> Some (k, [], st))"
| "search ic r pv (c # cs) k =
     (case first_match ic r pv (c # cs) of
        None \<Rightarrow> search ic r (Some c) cs (Suc k)
      | Some st \<Rightarrow> Some (k, consumed (MState (c # cs) pv []) st, st))"

text \<open>\<^verbatim>\<open>regex.test(line)\<close> for a pattern without the flag \<^verbatim>\<open>g\<close>: a match anywhere in the line.\<close>

definition test :: "bool \<Rightarrow> regex \<Rightarrow> string \<Rightarrow> bool" where
  "test ic r s = (search ic r None s 0 \<noteq> None)"

text \<open>\<^verbatim>\<open>m[n]\<close>: the text of capture group \<open>n\<close>, \<open>None\<close> for \<^verbatim>\<open>undefined\<close>.\<close>

definition capture :: "mstate \<Rightarrow> nat \<Rightarrow> string option" where
  "capture st n = map_of (caps st) n"

text \<open>
  The loop \<^verbatim>\<open>while ((match = regex.exec(text)))\<close> over a pattern with the flag \<^verbatim>\<open>g\<close>:
  each call searches from \<^verbatim>\<open>lastIndex\<close>, and a match moves \<^verbatim>\<open>lastIndex\<close> to its end. The
  state \<open>pv\<close>, \<open>s\<close>, \<open>k\<close> is the text from \<^verbatim>\<open>lastIndex\<close> on, the character before it and
  \<^verbatim>\<open>lastIndex\<close> itself. A match that reads nothing leaves \<^verbatim>\<open>lastIndex\<close> where it was, and
  the loop never ends: the result is \<open>None\<close>.
\<close>

partial_function (option) exec_all ::
  "bool \<Rightarrow> regex \<Rightarrow> char option \<Rightarrow> string \<Rightarrow> nat \<Rightarrow> (nat \<times> string \<times> mstate) list
     \<Rightarrow> (nat \<times> string \<times> mstate) list option" where
  "exec_all ic r pv s k acc =
     (case search ic r pv s k of
        None \<Rightarrow> Some acc
      | Some (i, txt, st) \<Rightarrow> exec_all ic r (prev st) (rest st) (i + length txt) (acc @ [(i, txt, st)]))"

declare exec_all.simps [code]

text \<open>\<^verbatim>\<open>text.split(/\r?\n/)\<close>; \<open>cur\<close> is the line being read.\<close>

fun split_lines :: "string \<Rightarrow> string \<Rightarrow> string list" where
  "split_lines cur [] = [cur]"
| "split_lines cur [c] = (if c = CHR 0x0A then [cur, []] else [cur @ [c]])"
| "split_lines cur (c # d # cs) =
     (if c = CHR 0x0A then cur # split_lines [] (d # cs)
      else if c = CHR 0x0D \<and> d = CHR 0x0A then cur # split_lines [] cs
      else split_lines (cur @ [c]) (d # cs))"

definition lines_of :: "string \<Rightarrow> string list" where
  "lines_of s = split_lines [] s"

text \<open>\<^verbatim>\<open>String(n)\<close> for a line number.\<close>

definition digit_char :: "nat \<Rightarrow> char" where
  "digit_char d = ''0123456789'' ! d"

fun show_nat :: "nat \<Rightarrow> string" where
  "show_nat n = (if n < 10 then [digit_char n] else show_nat (n div 10) @ [digit_char (n mod 10)])"

declare show_nat.simps [simp del]

record located =
  filePath :: string
  line :: nat

section \<open>The filesystem under the target directory\<close>

text \<open>
  A node is a regular file (its size in bytes and its text, \<open>None\<close> when reading it
  fails), a directory with its entries in the order \<^verbatim>\<open>readdir\<close> lists them, a directory
  that fails to open, or an entry that is neither a file nor a directory.
\<close>

datatype fsnode =
    FileNode nat "string option"
  | DirNode "(string \<times> fsnode) list"
  | LockedDir
  | OtherNode

fun isDirectory :: "fsnode \<Rightarrow> bool" where
  "isDirectory (DirNode es) = True"
| "isDirectory LockedDir = True"
| "isDirectory nd = False"

fun isFile :: "fsnode \<Rightarrow> bool" where
  "isFile (FileNode sz c) = True"
| "isFile nd = False"

datatype error =
    ReaddirFailed string
  | MkdirFailed string
  | WriteFailed string
  | StatFailed string
  | ReadFailed string
  | ExtractorFailed string
  | SyntaxError
  | TypeError
  | NetworkError

section \<open>Directory walker (route.ts)\<close>

definition ignore :: "string list" where
  "ignore = [''.git'', ''node_modules'', ''__pycache__'', ''.next'', ''.venv'', ''venv'',
             ''.tmp-extractor'', ''prisma'']"

text \<open>
  \<^verbatim>\<open>listAllFiles\<close>: \<open>walk\<close> pushes onto the shared array \<open>out\<close>, threaded here through the
  calls. \<^verbatim>\<open>readdir\<close> is not guarded: a directory that fails to open rejects the whole walk.
\<close>

fun walk :: "nat \<Rightarrow> string \<Rightarrow> fsnode \<Rightarrow> string list \<Rightarrow> error + string list"
  and walk_entries :: "nat \<Rightarrow> string \<Rightarrow> (string \<times> fsnode) list \<Rightarrow> string list \<Rightarrow> error + string list"
where
  "walk maxFiles dir (DirNode es) out = walk_entries maxFiles dir es out"
| "walk maxFiles dir (FileNode sz c) out = Inl (ReaddirFailed dir)"
| "walk maxFiles dir LockedDir out = Inl (ReaddirFailed dir)"
| "walk maxFiles dir OtherNode out = Inl (ReaddirFailed dir)"
| "walk_entries maxFiles dir [] out = Inr out"
| "walk_entries maxFiles dir ((name, nd) # es) out =
     (if length out \<ge> maxFiles then Inr out
      else if name \<in> set ignore then walk_entries maxFiles dir es out
      else if isDirectory nd then
        (case walk maxFiles (join dir name) nd out of
           Inl e \<Rightarrow> Inl e
         | Inr out' \<Rightarrow> walk_entries maxFiles dir es out')
      else if isFile nd then walk_entries maxFiles dir es (out @ [join dir name])
      else walk_entries maxFiles dir es out)"

definition listAllFiles :: "string \<Rightarrow> fsnode \<Rightarrow> nat \<Rightarrow> error + string list" where
  "listAllFiles rootDir node maxFiles = walk maxFiles rootDir node []"

datatype FileTreeNode =
    TreeDir string string "FileTreeNode list"
  | TreeFile string string

text \<open>\<^verbatim>\<open>dirPath.split("/").pop() || dirPath\<close>\<close>

fun last_segment :: "string \<Rightarrow> string \<Rightarrow> string" where
  "last_segment acc [] = acc"
| "last_segment acc (c # cs) = (if c = CHR ''/'' then last_segment [] cs else last_segment (acc @ [c]) cs)"

definition node_name :: "string \<Rightarrow> string" where
  "node_name dirPath = (let n = last_segment [] dirPath in if n = [] then dirPath else n)"

text \<open>
  \<^verbatim>\<open>entries.sort((a, b) => a.name.localeCompare(b.name))\<close>: a stable sort by name; the
  collation order \<open>le\<close> of the runtime's locale is a parameter.
\<close>

fun insert_entry :: "(string \<Rightarrow> string \<Rightarrow> bool) \<Rightarrow> string \<times> fsnode \<Rightarrow> (string \<times> fsnode) list \<Rightarrow> (string \<times> fsnode) list" where
  "insert_entry le e [] = [e]"
| "insert_entry le e (x # xs) = (if le (fst e) (fst x) then e # x # xs else x # insert_entry le e xs)"

fun sort_entries :: "(string \<Rightarrow> string \<Rightarrow> bool) \<Rightarrow> (string \<times> fsnode) list \<Rightarrow> (string \<times> fsnode) list" where
  "sort_entries le [] = []"
| "sort_entries le (e # es) = insert_entry le e (sort_entries le es)"

lemma size_insert_entry [simp]:
  "size_list f (insert_entry le e xs) = Suc (f e + size_list f xs)"
  by (induction xs) auto

lemma size_sort_entries [simp]:
  "size_list f (sort_entries le es) = size_list f es"
  by (induction es) auto

text \<open>
  \<^verbatim>\<open>buildFileTree\<close>: \<open>tree_walk\<close> is the inner \<^verbatim>\<open>walk(dirPath, depth)\<close> and \<open>tree_entries\<close>
  its \<^verbatim>\<open>for\<close> loop; the counter \<^verbatim>\<open>nodeCount\<close> of the closure is threaded through and
  returned. A directory child is counted after the recursive call has returned.
\<close>

function tree_walk :: "(string \<Rightarrow> string \<Rightarrow> bool) \<Rightarrow> nat \<Rightarrow> nat \<Rightarrow> string \<Rightarrow> fsnode \<Rightarrow> nat \<Rightarrow> nat \<Rightarrow> FileTreeNode \<times> nat"
  and tree_entries :: "(string \<Rightarrow> string \<Rightarrow> bool) \<Rightarrow> nat \<Rightarrow> nat \<Rightarrow> string \<Rightarrow> (string \<times> fsnode) list \<Rightarrow> nat \<Rightarrow> nat \<Rightarrow> FileTreeNode list \<Rightarrow> FileTreeNode list \<times> nat"
where
  "tree_walk le maxDepth maxNodes dirPath node depth nodeCount =
     (if depth > maxDepth \<or> nodeCount \<ge> maxNodes
      then (TreeDir (node_name dirPath) dirPath [], nodeCount)
      else (case node of
              DirNode es \<Rightarrow>
                (case tree_entries le maxDepth maxNodes dirPath (sort_entries le es) depth nodeCount [] of
                   (children, nodeCount') \<Rightarrow> (TreeDir (node_name dirPath) dirPath children, nodeCount'))
            | _ \<Rightarrow> (TreeDir (node_name dirPath) dirPath [], nodeCount)))"
| "tree_entries le maxDepth maxNodes dirPath [] depth nodeCount children = (children, nodeCount)"
| "tree_entries le maxDepth maxNodes dirPath ((name, nd) # es) depth nodeCount children =
     (if nodeCount \<ge> maxNodes then (children, nodeCount)
      else if name \<in> set ignore then tree_entries le maxDepth maxNodes dirPath es depth nodeCount children
      else if str_includes (toLowerCase (join dirPath name)) ''prisma''
        then tree_entries le maxDepth maxNodes dirPath es depth nodeCount children
      else if isDirectory nd then
        (case tree_walk le maxDepth maxNodes (join dirPath name) nd (depth + 1) nodeCount of
           (child, nodeCount') \<Rightarrow>
             tree_entries le maxDepth maxNodes dirPath es depth (nodeCount' + 1) (children @ [child]))
      else if isFile nd then
        tree_entries le maxDepth maxNodes dirPath es depth (nodeCount + 1)
          (children @ [TreeFile name (join dirPath name)])
      else tree_entries le maxDepth maxNodes dirPath es depth nodeCount children)"
  by pat_completeness auto
termination
  by (relation "measure (\<lambda>x. case x of
         Inl (le, maxDepth, maxNodes, dirPath, node, depth, nodeCount) \<Rightarrow> 2 * size node
       | Inr (le, maxDepth, maxNodes, dirPath, es, depth, nodeCount, children) \<Rightarrow>
           2 * size_list (size_prod (\<lambda>x. 0) size) es + 1)") auto

definition buildFileTree :: "(string \<Rightarrow> string \<Rightarrow> bool) \<Rightarrow> string \<Rightarrow> fsnode \<Rightarrow> nat \<Rightarrow> nat \<Rightarrow> FileTreeNode" where
  "buildFileTree le rootDir node maxDepth maxNodes = fst (tree_walk le maxDepth maxNodes rootDir node 1 0)"

fun tree_size :: "FileTreeNode \<Rightarrow> nat" where
  "tree_size (TreeFile n p) = 1"
| "tree_size (TreeDir n p cs) = 1 + sum_list (map tree_size cs)"

text \<open>The nodes of a tree other than its root.\<close>

definition non_root_nodes :: "FileTreeNode \<Rightarrow> nat" where
  "non_root_nodes t = tree_size t - 1"

section \<open>Secret scanner (secretsScan.ts)\<close>

record SecretFinding = located +
  match :: string

text \<open>The table \<^verbatim>\<open>patterns\<close>: each entry's name, its flag \<^verbatim>\<open>i\<close> and its pattern.
  \<^verbatim>\<open>/sk-[A-Za-z0-9]{20,}/g\<close>, \<^verbatim>\<open>/Bearer\s+[A-Za-z0-9\-_\.]+/g\<close> and
  \<^verbatim>\<open>/https?:\/\/[\w.-]+\.[\w.-]+\/.+\/(?:token|key|secret)[^\s"']*/gi\<close>.\<close>

definition alnum :: "citem list" where
  "alnum = [Range CHR ''A'' CHR ''Z'', Range CHR ''a'' CHR ''z'', Range CHR ''0'' CHR ''9'']"

definition openai_key :: regex where
  "openai_key = seqs [str ''sk-'', Rep True 20 None (CSet False alnum)]"

definition bearer_token :: regex where
  "bearer_token =
     seqs [str ''Bearer'',
           Rep True 1 None (CSet False [SpaceC]),
           Rep True 1 None (CSet False (alnum @ [Ch CHR ''-'', Ch CHR ''_'', Ch CHR ''.'']))]"

definition host_chars :: "citem list" where
  "host_chars = [WordC, Ch CHR ''.'', Ch CHR ''-'']"

definition url_private :: regex where
  "url_private =
     seqs [str ''http'',
           Rep True 0 (Some 1) (Lit CHR ''s''),
           str ''://'',
           Rep True 1 None (CSet False host_chars),
           Lit CHR ''.'',
           Rep True 1 None (CSet False host_chars),
           Lit CHR ''/'',
           Rep True 1 None Dot,
           Lit CHR ''/'',
           Alt (str ''token'') (Alt (str ''key'') (str ''secret'')),
           Rep True 0 None (CSet True [SpaceC, Ch CHR 0x22, Ch CHR 0x27])]"

definition patterns :: "(string \<times> bool \<times> regex) list" where
  "patterns =
     [(''openai_key'', False, openai_key),
      (''bearer_token'', False, bearer_token),
      (''url_private'', True, url_private)]"

text \<open>
  \<open>scan_patterns\<close> is the loop over the table for one line (index \<open>i\<close>) and \<open>scan_lines\<close>
  the loop over the lines; \<open>findings\<close> is the array the matches are pushed onto.
\<close>

fun scan_patterns ::
  "(string \<times> bool \<times> regex) list \<Rightarrow> string \<Rightarrow> string \<Rightarrow> nat \<Rightarrow> SecretFinding list
     \<Rightarrow> SecretFinding list option" where
  "scan_patterns [] lineText fp i findings = Some findings"
| "scan_patterns ((name, ic, r) # ps) lineText fp i findings =
     (case exec_all ic r None lineText 0 [] of
        None \<Rightarrow> None
      | Some ms \<Rightarrow>
          scan_patterns ps lineText fp i
            (findings @ map (\<lambda>(k, txt, st). \<lparr>filePath = fp, line = i + 1, match = txt\<rparr>) ms))"

fun scan_lines ::
  "string list \<Rightarrow> string \<Rightarrow> nat \<Rightarrow> SecretFinding list \<Rightarrow> SecretFinding list option" where
  "scan_lines [] fp i findings = Some findings"
| "scan_lines (lineText # ls) fp i findings =
     (case scan_patterns patterns lineText fp i findings of
        None \<Rightarrow> None
      | Some findings' \<Rightarrow> scan_lines ls fp (i + 1) findings')"

definition scanTextForSecrets :: "string \<Rightarrow> string \<Rightarrow> SecretFinding list option" where
  "scanTextForSecrets text fp = scan_lines (lines_of text) fp 0 []"

section \<open>Lexical heuristic scanner (promptKeywordScan.ts)\<close>

record PromptKeywordHit = located +
  matchLabel :: string
  snippet :: string

text \<open>\<^verbatim>\<open>value.replace(/\s+/g, " ").trim()\<close>; \<open>in_run\<close> says that the character before was
  white space.\<close>

fun collapse_ws :: "bool \<Rightarrow> string \<Rightarrow> string" where
  "collapse_ws in_run [] = []"
| "collapse_ws in_run (c # cs) =
     (if is_space c then (if in_run then collapse_ws True cs else CHR '' '' # collapse_ws True cs)
      else c # collapse_ws False cs)"

definition trim :: "string \<Rightarrow> string" where
  "trim s = rev (dropWhile is_space (rev (dropWhile is_space s)))"

definition normalizeWhitespace :: "string \<Rightarrow> string" where
  "normalizeWhitespace v = trim (collapse_ws False v)"

definition role_re :: regex where
  "role_re = seqs [Bnd, str ''role'', Bnd]"

definition system_re :: regex where
  "system_re = seqs [Bnd, str ''system'', Bnd]"

definition system_prompt_re :: regex where
  "system_prompt_re =
     seqs [Bnd, str ''system'', Rep True 0 (Some 1) (CSet False [Ch CHR ''_'', Ch CHR ''-'']),
           str ''prompt'', Bnd]"

definition ws0 :: regex where
  "ws0 = Rep True 0 None (CSet False [SpaceC])"

definition system_message_re :: regex where
  "system_message_re =
     Alt (seqs [Bnd, str ''system'', ws0, str ''message'', Bnd])
         (seqs [Bnd, str ''systemMessage'', Bnd])"

definition messages_re :: regex where
  "messages_re = seqs [Bnd, str ''message'', Rep True 0 (Some 1) (Lit CHR ''s''), Bnd]"

definition you_are_re :: regex where
  "you_are_re = seqs [Bnd, str ''you are'', Bnd]"

definition system_or_assistant_re :: regex where
  "system_or_assistant_re = seqs [Bnd, Group 1 (Alt (str ''system'') (str ''assistant'')), Bnd]"

definition prompt_re :: regex where
  "prompt_re = seqs [Bnd, str ''prompt'', Bnd]"

definition variants_re :: regex where
  "variants_re =
     Group 1 (Alt (str ''initialSystemPrompt'') (Alt (str ''baseSystemPrompt'')
             (Alt (str ''systemInstructions'') (str ''systemSpec''))))"

text \<open>The table \<^verbatim>\<open>keywordMatchers\<close>, in its declaration order; every pattern has the flag
  \<^verbatim>\<open>i\<close>.\<close>

definition keywordMatchers :: "(string \<times> (string \<Rightarrow> bool)) list" where
  "keywordMatchers =
     [(''role_system'', \<lambda>l. test True role_re l \<and> test True system_re l),
      (''system_prompt_identifier'', \<lambda>l. test True system_prompt_re l),
      (''system_message_identifier'', \<lambda>l. test True system_message_re l),
      (''messages_role_system_inline'',
         \<lambda>l. test True messages_re l \<and> test True role_re l \<and> test True system_re l),
      (''system_directive_you_are'', \<lambda>l. test True you_are_re l \<and> test True system_or_assistant_re l),
      (''generic_prompt_with_system'', \<lambda>l. test True prompt_re l \<and> test True system_re l),
      (''common_identifier_variants'', \<lambda>l. test True variants_re l)]"

definition any_lazy :: regex where
  "any_lazy = Rep False 0 None (CSet False [SpaceC, NotSpaceC])"

definition quote :: regex where
  "quote = CSet False [Ch CHR 0x22, Ch CHR 0x27]"

definition backtick :: regex where
  "backtick = Lit CHR 0x60"

definition triple :: regex where
  "triple = Rep True 3 (Some 3) quote"

text \<open>The table \<^verbatim>\<open>blockPatterns\<close>: label, flag \<^verbatim>\<open>i\<close>, pattern and \<^verbatim>\<open>groupIndex\<close>.\<close>

definition blockPatterns :: "(string \<times> bool \<times> regex \<times> nat) list" where
  "blockPatterns =
     [(''js_ts_system_template_literal'', False,
         seqs [Bnd, str ''system'', ws0, Lit CHR '':'', ws0, backtick, Group 1 any_lazy, backtick], 1),
      (''js_ts_role_system_then_content_template'', True,
         seqs [str ''role'', ws0, Lit CHR '':'', ws0, quote, str ''system'', quote, any_lazy,
               str ''content'', ws0, Lit CHR '':'', ws0, backtick, Group 1 any_lazy, backtick], 1),
      (''js_ts_content_template_then_role_system'', True,
         seqs [str ''content'', ws0, Lit CHR '':'', ws0, backtick, Group 1 any_lazy, backtick, any_lazy,
               str ''role'', ws0, Lit CHR '':'', ws0, quote, str ''system'', quote], 1),
      (''py_system_triple_quoted'', False,
         seqs [Bnd, str ''system'', ws0, CSet False [Ch CHR '':'', Ch CHR ''=''], ws0,
               Group 1 triple, Group 2 any_lazy, Backref 1], 2),
      (''py_role_system_triple_content'', True,
         seqs [str ''role'', ws0, Lit CHR ''='', ws0, quote, str ''system'', quote, any_lazy,
               str ''content'', ws0, Lit CHR ''='', ws0, Group 1 triple, Group 2 any_lazy, Backref 1], 2),
      (''py_content_triple_then_role_system'', True,
         seqs [str ''content'', ws0, Lit CHR ''='', ws0, Group 1 triple, Group 2 any_lazy, Backref 1,
               any_lazy, str ''role'', ws0, Lit CHR ''='', ws0, quote, str ''system'', quote], 2)]"

text \<open>\<^verbatim>\<open>lineNumberAtIndex\<close>: one more than the line feeds before index \<open>idx\<close>.\<close>

definition lineNumberAtIndex :: "string \<Rightarrow> nat \<Rightarrow> nat" where
  "lineNumberAtIndex text idx =
     (if idx \<le> 0 then 1 else 1 + length (filter (\<lambda>c. c = CHR 0x0A) (take idx text)))"

text \<open>The key \<^verbatim>\<open>`${label}:${line}:${content.slice(0, 50)}`\<close>.\<close>

definition mk_key :: "string \<Rightarrow> nat \<Rightarrow> string \<Rightarrow> string" where
  "mk_key label lineNo content = label @ '':'' @ show_nat lineNo @ '':'' @ take 50 content"

text \<open>The body of the \<^verbatim>\<open>while\<close> loop of one block pattern, run over its matches in order;
  the state is the set \<^verbatim>\<open>seen\<close> and the array \<^verbatim>\<open>hits\<close>.\<close>

fun block_matches ::
  "string \<Rightarrow> string \<Rightarrow> string \<Rightarrow> nat \<Rightarrow> (nat \<times> string \<times> mstate) list
     \<Rightarrow> string set \<times> PromptKeywordHit list \<Rightarrow> string set \<times> PromptKeywordHit list" where
  "block_matches text fp label g [] (seen, hits) = (seen, hits)"
| "block_matches text fp label g ((fullIndex, txt, st) # ms) (seen, hits) =
     (let content = (case capture st g of None \<Rightarrow> [] | Some c \<Rightarrow> c);
          lineNo = lineNumberAtIndex text fullIndex;
          key = mk_key label lineNo content
      in if key \<in> seen then block_matches text fp label g ms (seen, hits)
         else block_matches text fp label g ms
                (insert key seen,
                 hits @ [\<lparr>filePath = fp, line = lineNo, matchLabel = label, snippet = content\<rparr>]))"

fun scan_blocks ::
  "(string \<times> bool \<times> regex \<times> nat) list \<Rightarrow> string \<Rightarrow> string
     \<Rightarrow> string set \<times> PromptKeywordHit list \<Rightarrow> (string set \<times> PromptKeywordHit list) option" where
  "scan_blocks [] text fp sh = Some sh"
| "scan_blocks ((label, ic, r, g) # ps) text fp sh =
     (case exec_all ic r None text 0 [] of
        None \<Rightarrow> None
      | Some ms \<Rightarrow> scan_blocks ps text fp (block_matches text fp label g ms sh))"

text \<open>The context snippet of line \<open>i\<close>: the lines around it that are not empty, joined and
  normalised.\<close>

definition line_snippet :: "string list \<Rightarrow> nat \<Rightarrow> string" where
  "line_snippet ls i =
     (let contextPrev = (if i > 0 then ls ! (i - 1) else []);
          contextNext = (if i + 1 < length ls then ls ! (i + 1) else [])
      in normalizeWhitespace
           (join_with ('' '' @ [CHR 0x0A] @ '' '') (filter (\<lambda>s. s \<noteq> []) [contextPrev, ls ! i, contextNext])))"

text \<open>The inner loop over the matchers for line \<open>i\<close>: a matcher whose key was seen is passed
  over (\<^verbatim>\<open>continue\<close>), the first hit pushed ends the loop (\<^verbatim>\<open>break\<close>).\<close>

fun try_matchers ::
  "(string \<times> (string \<Rightarrow> bool)) list \<Rightarrow> string list \<Rightarrow> string \<Rightarrow> nat
     \<Rightarrow> string set \<times> PromptKeywordHit list \<Rightarrow> string set \<times> PromptKeywordHit list" where
  "try_matchers [] ls fp i (seen, hits) = (seen, hits)"
| "try_matchers ((label, tst) # ms) ls fp i (seen, hits) =
     (if tst (ls ! i) then
        (let snip = line_snippet ls i;
             key = mk_key label (i + 1) snip
         in if key \<in> seen then try_matchers ms ls fp i (seen, hits)
            else (insert key seen,
                  hits @ [\<lparr>filePath = fp, line = i + 1, matchLabel = label, snippet = snip\<rparr>]))
      else try_matchers ms ls fp i (seen, hits))"

function scan_line_heuristics ::
  "string list \<Rightarrow> string \<Rightarrow> nat \<Rightarrow> string set \<times> PromptKeywordHit list
     \<Rightarrow> string set \<times> PromptKeywordHit list" where
  "scan_line_heuristics ls fp i sh =
     (if i < length ls then scan_line_heuristics ls fp (i + 1) (try_matchers keywordMatchers ls fp i sh)
      else sh)"
  by pat_completeness auto
termination
  by (relation "measure (\<lambda>(ls, fp, i, sh). length ls - i)") auto

declare scan_line_heuristics.simps [simp del]

definition scanTextForPromptKeywords :: "string \<Rightarrow> string \<Rightarrow> PromptKeywordHit list option" where
  "scanTextForPromptKeywords text fp =
     (case scan_blocks blockPatterns text fp ({}, []) of
        None \<Rightarrow> None
      | Some sh \<Rightarrow> Some (snd (scan_line_heuristics (lines_of text) fp 0 sh)))"

section \<open>Structural extractor (pythonExtractor.ts)\<close>

record PythonPrompt = located +
  role :: string
  prompt_text :: string
  functionName :: "string option"
  callSignature :: "string option"

subsection \<open>The extractor script\<close>

text \<open>
  The syntax trees that \<^verbatim>\<open>ast.parse\<close> gives, as far as the visitor looks at them. A
  node the visitor has no case for is \<open>Other\<close>, with its child nodes in field order;
  the children of a function definition are in field order too. A call node has its
  callee, its positional arguments, its keywords (\<open>None\<close> for the name of \<^verbatim>\<open>**kwargs\<close>)
  and its line number; a dictionary has its keys (\<open>None\<close> for \<^verbatim>\<open>**d\<close>) and its values.
\<close>

datatype pyconst = CStr string | COther

datatype pynode =
    Constant pyconst
  | JoinedStr "pynode list"
  | Name string
  | Attribute pynode string
  | Call pynode "pynode list" "(string option \<times> pynode) list" nat
  | Dict "pynode option list" "pynode list"
  | ListNode "pynode list"
  | FunctionDef string "pynode list"
  | AsyncFunctionDef string "pynode list"
  | Other "pynode list"

definition LLM_CALLEE_NAMES :: "string list list" where
  "LLM_CALLEE_NAMES =
     [[''openai'', ''ChatCompletion'', ''create''],
      [''openai'', ''chat'', ''completions'', ''create''],
      [''client'', ''chat'', ''completions'', ''create''],
      [''anthropic'', ''messages'', ''create''],
      [''llm'', ''invoke'']]"

text \<open>\<^verbatim>\<open>_callee_segments\<close>: the attribute names of the chain, the root name first when the
  chain ends in a name.\<close>

fun callee_segments :: "pynode \<Rightarrow> string list" where
  "callee_segments (Attribute v a) = callee_segments v @ [a]"
| "callee_segments (Name n) = [n]"
| "callee_segments nd = []"

text \<open>\<^verbatim>\<open>any(callee[-len(s):] == s for s in LLM_CALLEE_NAMES if len(callee) >= len(s))\<close>\<close>

definition is_llm_call :: "string list \<Rightarrow> bool" where
  "is_llm_call callee =
     list_ex (\<lambda>s. length callee \<ge> length s \<and> drop (length callee - length s) callee = s)
       LLM_CALLEE_NAMES"

fun const_string :: "pynode \<Rightarrow> string list" where
  "const_string (Constant (CStr s)) = [s]"
| "const_string nd = []"

text \<open>\<^verbatim>\<open>_extract_string\<close>; \<open>None\<close> is Python's \<^verbatim>\<open>None\<close>.\<close>

fun extract_string :: "pynode \<Rightarrow> string option" where
  "extract_string (Constant (CStr s)) = Some s"
| "extract_string (JoinedStr vs) = Some (concat (concat (map const_string vs)))"
| "extract_string nd = None"

definition infer_role_from_kw :: "string \<Rightarrow> string" where
  "infer_role_from_kw kwarg_name =
     (if kwarg_name \<in> set [''system'', ''system_prompt''] then ''system''
      else if kwarg_name \<in> set [''user'', ''prompt'', ''input''] then ''user''
      else if kwarg_name \<in> set [''tool'', ''tools_prompt''] then ''tool''
      else ''unknown'')"

text \<open>The dictionary appended to \<^verbatim>\<open>self.results\<close>.\<close>

definition mk_result :: "string \<Rightarrow> string list \<Rightarrow> string list \<Rightarrow> nat \<Rightarrow> string \<Rightarrow> string \<Rightarrow> PythonPrompt" where
  "mk_result file_path func_stack callee lineno r t =
     \<lparr>filePath = file_path, line = lineno, role = r, prompt_text = t,
      functionName = (if func_stack = [] then None else Some (last func_stack)),
      callSignature = Some (join_with ''.'' callee)\<rparr>"

text \<open>The keyword arguments of a recognised call: \<^verbatim>\<open>if text:\<close> passes a string that is
  not empty.\<close>

fun kw_results ::
  "string \<Rightarrow> string list \<Rightarrow> string list \<Rightarrow> nat \<Rightarrow> (string option \<times> pynode) list \<Rightarrow> PythonPrompt list" where
  "kw_results fp stack callee lineno [] = []"
| "kw_results fp stack callee lineno ((arg, v) # kws) =
     (case extract_string v of
        None \<Rightarrow> kw_results fp stack callee lineno kws
      | Some t \<Rightarrow>
          (if t \<noteq> [] then
             [mk_result fp stack callee lineno
                (case arg of
                   None \<Rightarrow> ''unknown''
                 | Some a \<Rightarrow> if a \<noteq> [] then infer_role_from_kw a else ''unknown'') t]
           else [])
          @ kw_results fp stack callee lineno kws)"

text \<open>\<^verbatim>\<open>keys = [k.s if isinstance(k, ast.Constant) else None for k in arg.keys]\<close>\<close>

fun key_of :: "pynode option \<Rightarrow> pyconst option" where
  "key_of (Some (Constant c)) = Some c"
| "key_of k = None"

text \<open>The loop \<^verbatim>\<open>for k, v in zip(keys, values)\<close>; the state is \<^verbatim>\<open>role\<close> and \<^verbatim>\<open>text\<close>.\<close>

fun dict_loop ::
  "(pyconst option \<times> pynode) list \<Rightarrow> string option \<times> string option \<Rightarrow> string option \<times> string option" where
  "dict_loop [] rt = rt"
| "dict_loop ((k, v) # kvs) (r, t) =
     dict_loop kvs
       (if k = Some (CStr ''role'') then (case v of Constant (CStr s) \<Rightarrow> Some s | _ \<Rightarrow> r) else r,
        if k = Some (CStr ''content'') then extract_string v else t)"

definition dict_results ::
  "string \<Rightarrow> string list \<Rightarrow> string list \<Rightarrow> nat \<Rightarrow> pynode option list \<Rightarrow> pynode list \<Rightarrow> PythonPrompt list" where
  "dict_results fp stack callee lineno ks vs =
     (let keys = map key_of ks
      in if keys \<noteq> [] \<and> Some (CStr ''role'') \<in> set keys \<and> Some (CStr ''content'') \<in> set keys then
           (case dict_loop (zip keys vs) (None, None) of
              (r, Some t) \<Rightarrow>
                if t \<noteq> [] then
                  [mk_result fp stack callee lineno
                     (case r of None \<Rightarrow> ''unknown'' | Some s \<Rightarrow> if s \<noteq> [] then s else ''unknown'') t]
                else []
            | (r, None) \<Rightarrow> [])
         else [])"

fun elt_results ::
  "string \<Rightarrow> string list \<Rightarrow> string list \<Rightarrow> nat \<Rightarrow> pynode \<Rightarrow> PythonPrompt list" where
  "elt_results fp stack callee lineno (Dict ks vs) = dict_results fp stack callee lineno ks vs"
| "elt_results fp stack callee lineno nd = []"

fun arg_results ::
  "string \<Rightarrow> string list \<Rightarrow> string list \<Rightarrow> nat \<Rightarrow> pynode \<Rightarrow> PythonPrompt list" where
  "arg_results fp stack callee lineno (Dict ks vs) = dict_results fp stack callee lineno ks vs"
| "arg_results fp stack callee lineno (ListNode elts) =
     concat (map (elt_results fp stack callee lineno) elts)"
| "arg_results fp stack callee lineno nd = []"

text \<open>What \<^verbatim>\<open>visit_Call\<close> appends for the call node itself, before it visits the children.\<close>

definition call_results ::
  "string \<Rightarrow> string list \<Rightarrow> pynode \<Rightarrow> pynode list \<Rightarrow> (string option \<times> pynode) list \<Rightarrow> nat
     \<Rightarrow> PythonPrompt list" where
  "call_results fp stack func args keywords lineno =
     (let callee = callee_segments func
      in if is_llm_call callee then
           kw_results fp stack callee lineno keywords
           @ concat (map (arg_results fp stack callee lineno) args)
         else [])"

text \<open>
  \<open>visit\<close> is \<^verbatim>\<open>PromptVisitor.visit\<close>: it returns what the visit of the node appends to
  \<^verbatim>\<open>self.results\<close>; \<open>stack\<close> is \<^verbatim>\<open>self.func_stack\<close>, pushed and popped around a function
  definition. \<^verbatim>\<open>generic_visit\<close> visits the child nodes in field order: \<open>visit_all\<close> over a
  list of nodes, \<open>visit_kws\<close> over the values of keywords, \<open>visit_keys\<close> over the keys of a
  dictionary that are nodes.
\<close>

fun visit :: "string \<Rightarrow> string list \<Rightarrow> pynode \<Rightarrow> PythonPrompt list"
  and visit_all :: "string \<Rightarrow> string list \<Rightarrow> pynode list \<Rightarrow> PythonPrompt list"
  and visit_kws :: "string \<Rightarrow> string list \<Rightarrow> (string option \<times> pynode) list \<Rightarrow> PythonPrompt list"
  and visit_keys :: "string \<Rightarrow> string list \<Rightarrow> pynode option list \<Rightarrow> PythonPrompt list"
where
  "visit fp stack (FunctionDef name children) = visit_all fp (stack @ [name]) children"
| "visit fp stack (AsyncFunctionDef name children) = visit_all fp (stack @ [name]) children"
| "visit fp stack (Call func args keywords lineno) =
     call_results fp stack func args keywords lineno
     @ visit fp stack func @ visit_all fp stack args @ visit_kws fp stack keywords"
| "visit fp stack (Constant c) = []"
| "visit fp stack (Name n) = []"
| "visit fp stack (JoinedStr vs) = visit_all fp stack vs"
| "visit fp stack (Attribute v a) = visit fp stack v"
| "visit fp stack (Dict ks vs) = visit_keys fp stack ks @ visit_all fp stack vs"
| "visit fp stack (ListNode elts) = visit_all fp stack elts"
| "visit fp stack (Other children) = visit_all fp stack children"
| "visit_all fp stack [] = []"
| "visit_all fp stack (nd # nds) = visit fp stack nd @ visit_all fp stack nds"
| "visit_kws fp stack [] = []"
| "visit_kws fp stack ((arg, v) # kws) = visit fp stack v @ visit_kws fp stack kws"
| "visit_keys fp stack [] = []"
| "visit_keys fp stack (None # ks) = visit_keys fp stack ks"
| "visit_keys fp stack (Some k # ks) = visit fp stack k @ visit_keys fp stack ks"

text \<open>\<^verbatim>\<open>extract_from_file\<close>: a file that does not open or parse gives nothing. \<^verbatim>\<open>walk_dir\<close>
  runs over the files whose name ends in \<^verbatim>\<open>.py\<close>; \<open>parsed\<close> lists them in the order
  \<^verbatim>\<open>os.walk\<close> meets them, each with its tree (\<open>None\<close> when \<^verbatim>\<open>open\<close> or \<^verbatim>\<open>ast.parse\<close> raises).\<close>

definition extract_from_file :: "string \<Rightarrow> pynode option \<Rightarrow> PythonPrompt list" where
  "extract_from_file file_path tree = (case tree of None \<Rightarrow> [] | Some t \<Rightarrow> visit file_path [] t)"

definition walk_dir :: "(string \<times> pynode option) list \<Rightarrow> PythonPrompt list" where
  "walk_dir parsed = concat (map (\<lambda>(path, tree). extract_from_file path tree) parsed)"

subsection \<open>The caller of the script\<close>

text \<open>
  What the scan takes from its surroundings: the extractor process (its exit code,
  \<open>None\<close> when a signal ended it, its standard output and its standard error),
  \<^verbatim>\<open>JSON.parse\<close> of that output read as \<^verbatim>\<open>PythonPrompt[]\<close> (\<open>None\<close> when it throws), the text of
  the script, and the collation order of \<^verbatim>\<open>localeCompare\<close>. The process reads the files
  under the project root and changes none.
\<close>

record extractor_env =
  script_text :: string
  run_python :: "string \<Rightarrow> string \<Rightarrow> fsnode \<Rightarrow> int option \<times> string \<times> string"
  parse_prompts :: "string \<Rightarrow> PythonPrompt list option"

definition tmp_name :: string where
  "tmp_name = ''.tmp-extractor''"

definition script_name :: string where
  "script_name = ''python_prompt_extractor.py''"

text \<open>Writing an entry of a directory: an entry of that name is replaced, a new one is
  added at the end.\<close>

fun put_entry :: "string \<Rightarrow> fsnode \<Rightarrow> (string \<times> fsnode) list \<Rightarrow> (string \<times> fsnode) list" where
  "put_entry name nd [] = [(name, nd)]"
| "put_entry name nd ((n, x) # es) =
     (if n = name then (n, nd) # es else (n, x) # put_entry name nd es)"

text \<open>
  \<^verbatim>\<open>fs.mkdir(tempDir, { recursive: true })\<close> for \<^verbatim>\<open>tempDir = join(projectRoot, ".tmp-extractor")\<close>,
  on the tree \<open>fs\<close> of the project root: a directory of that name is left as it is, a
  file of that name makes the call fail.
\<close>

definition mkdir_temp :: "string \<Rightarrow> fsnode \<Rightarrow> error + fsnode" where
  "mkdir_temp projectRoot fs =
     (case fs of
        DirNode es \<Rightarrow>
          (case map_of es tmp_name of
             None \<Rightarrow> Inr (DirNode (es @ [(tmp_name, DirNode [])]))
           | Some nd \<Rightarrow>
               if isDirectory nd then Inr fs else Inl (MkdirFailed (join projectRoot tmp_name)))
      | _ \<Rightarrow> Inl (MkdirFailed (join projectRoot tmp_name)))"

text \<open>\<^verbatim>\<open>fs.writeFile(scriptPath, script, "utf8")\<close>: the file is created or overwritten.\<close>

definition write_script :: "string \<Rightarrow> string \<Rightarrow> fsnode \<Rightarrow> error + fsnode" where
  "write_script script projectRoot fs =
     (let scriptPath = join (join projectRoot tmp_name) script_name;
          file = FileNode (length script) (Some script)
      in case fs of
           DirNode es \<Rightarrow>
             (case map_of es tmp_name of
                Some (DirNode ts) \<Rightarrow>
                  (case map_of ts script_name of
                     None \<Rightarrow> Inr (DirNode (put_entry tmp_name (DirNode (put_entry script_name file ts)) es))
                   | Some (FileNode sz c) \<Rightarrow>
                       Inr (DirNode (put_entry tmp_name (DirNode (put_entry script_name file ts)) es))
                   | Some nd \<Rightarrow> Inl (WriteFailed scriptPath))
              | _ \<Rightarrow> Inl (WriteFailed scriptPath))
         | _ \<Rightarrow> Inl (WriteFailed scriptPath))"

text \<open>\<^verbatim>\<open>ensurePythonScript(join(projectRoot, ".tmp-extractor"))\<close>: the tree after the call, and
  the path of the script or the error thrown.\<close>

definition ensurePythonScript :: "string \<Rightarrow> string \<Rightarrow> fsnode \<Rightarrow> fsnode \<times> (error + string)" where
  "ensurePythonScript script projectRoot fs =
     (case mkdir_temp projectRoot fs of
        Inl e \<Rightarrow> (fs, Inl e)
      | Inr fs1 \<Rightarrow>
          (case write_script script projectRoot fs1 of
             Inl e \<Rightarrow> (fs1, Inl e)
           | Inr fs2 \<Rightarrow> (fs2, Inr (join (join projectRoot tmp_name) script_name))))"

text \<open>\<^verbatim>\<open>extractPythonPrompts\<close>: the tree after the call, and the artifacts the promise
  resolves to or the error it rejects with.\<close>

definition extractPythonPrompts ::
  "extractor_env \<Rightarrow> string \<Rightarrow> fsnode \<Rightarrow> fsnode \<times> (error + PythonPrompt list)" where
  "extractPythonPrompts env projectRoot fs =
     (case ensurePythonScript (script_text env) projectRoot fs of
        (fs1, Inl e) \<Rightarrow> (fs1, Inl e)
      | (fs1, Inr script) \<Rightarrow>
          (case run_python env script projectRoot fs1 of
             (code, out, err) \<Rightarrow>
               if code \<noteq> Some 0 then (fs1, Inl (ExtractorFailed err))
               else (case parse_prompts env out of
                       None \<Rightarrow> (fs1, Inl SyntaxError)
                     | Some parsed \<Rightarrow> (fs1, Inr parsed))))"

section \<open>Narrative synthesizer (analyzePrompts)\<close>

text \<open>JSON values, as \<^verbatim>\<open>res.json()\<close> and \<^verbatim>\<open>JSON.parse\<close> give them; an object is the list of its
  own properties.\<close>

datatype json =
    JNull
  | JBool bool
  | JNum real
  | JStr string
  | JArr "json list"
  | JObj "(string \<times> json) list"

text \<open>A JavaScript value that may be \<^verbatim>\<open>undefined\<close> is a \<^typ>\<open>json option\<close>. \<open>truthy\<close> is
  \<^verbatim>\<open>Boolean(v)\<close>.\<close>

fun truthy :: "json option \<Rightarrow> bool" where
  "truthy None = False"
| "truthy (Some JNull) = False"
| "truthy (Some (JBool b)) = b"
| "truthy (Some (JNum x)) = (x \<noteq> 0)"
| "truthy (Some (JStr s)) = (s \<noteq> [])"
| "truthy (Some (JArr xs)) = True"
| "truthy (Some (JObj kvs)) = True"

text \<open>\<^verbatim>\<open>v?.name\<close> for the property names the code reads (\<^verbatim>\<open>choices\<close>, \<^verbatim>\<open>message\<close>, \<^verbatim>\<open>content\<close>,
  \<^verbatim>\<open>summary\<close>, \<^verbatim>\<open>files\<close>): only an object can have them.\<close>

fun get_prop :: "json option \<Rightarrow> string \<Rightarrow> json option" where
  "get_prop (Some (JObj kvs)) name = map_of kvs name"
| "get_prop v name = None"

text \<open>\<^verbatim>\<open>v?.[0]\<close>\<close>

fun get_first :: "json option \<Rightarrow> json option" where
  "get_first (Some (JArr [])) = None"
| "get_first (Some (JArr (x # xs))) = Some x"
| "get_first (Some (JObj kvs)) = map_of kvs ''0''"
| "get_first (Some (JStr [])) = None"
| "get_first (Some (JStr (c # cs))) = Some (JStr [c])"
| "get_first v = None"

text \<open>\<^verbatim>\<open>s.indexOf(c)\<close> and \<^verbatim>\<open>s.lastIndexOf(c)\<close>, \<open>None\<close> for \<open>-1\<close>; \<^verbatim>\<open>s.slice(a, b)\<close>.\<close>

fun indexOf :: "'a list \<Rightarrow> 'a \<Rightarrow> nat option" where
  "indexOf [] c = None"
| "indexOf (x # xs) c = (if x = c then Some 0 else map_option Suc (indexOf xs c))"

definition lastIndexOf :: "'a list \<Rightarrow> 'a \<Rightarrow> nat option" where
  "lastIndexOf xs c = map_option (\<lambda>i. length xs - 1 - i) (indexOf (rev xs) c)"

definition slice :: "nat \<Rightarrow> nat \<Rightarrow> 'a list \<Rightarrow> 'a list" where
  "slice a b xs = take (b - a) (drop a xs)"

type_synonym FileTreeNodeLite = FileTreeNode

text \<open>
  \<^verbatim>\<open>flattenFileTree\<close>: \<open>flatten_walk\<close> is its inner \<^verbatim>\<open>walk(n, depth)\<close> and \<open>flatten_children\<close>
  the loop over the children; \<open>out\<close> is the array the paths are pushed onto.
\<close>

fun flatten_walk :: "nat \<Rightarrow> nat \<Rightarrow> FileTreeNodeLite \<Rightarrow> nat \<Rightarrow> string list \<Rightarrow> string list"
  and flatten_children :: "nat \<Rightarrow> nat \<Rightarrow> FileTreeNodeLite list \<Rightarrow> nat \<Rightarrow> string list \<Rightarrow> string list"
where
  "flatten_walk maxDepth maxItems (TreeFile name path) depth out =
     (if length out \<ge> maxItems then out else out @ [path])"
| "flatten_walk maxDepth maxItems (TreeDir name path children) depth out =
     (if length out \<ge> maxItems then out
      else if depth \<ge> maxDepth then out @ [path]
      else flatten_children maxDepth maxItems children depth (out @ [path]))"
| "flatten_children maxDepth maxItems [] depth out = out"
| "flatten_children maxDepth maxItems (c # cs) depth out =
     (if length out \<ge> maxItems then out
      else flatten_children maxDepth maxItems cs depth
             (flatten_walk maxDepth maxItems c (depth + 1) out))"

definition flattenFileTree :: "FileTreeNodeLite option \<Rightarrow> nat \<Rightarrow> nat \<Rightarrow> string list" where
  "flattenFileTree rootNode maxDepth maxItems =
     (case rootNode of None \<Rightarrow> [] | Some n \<Rightarrow> flatten_walk maxDepth maxItems n 0 [])"

text \<open>The request sent to the service: the model name and the three parts of the context
  that the user message carries.\<close>

record request =
  req_model :: string
  req_paths :: "string list"
  req_hits :: "PromptKeywordHit list"
  req_python :: "PythonPrompt list"

text \<open>
  What the synthesizer takes from its surroundings: the credential and the model name of
  the process environment, \<^verbatim>\<open>fetch\<close> followed by \<^verbatim>\<open>res.json()\<close> (\<open>None\<close> when either
  throws), \<^verbatim>\<open>JSON.parse\<close> (\<open>None\<close> when it throws) and the conversion of an array to a
  string.
\<close>

record analyze_env =
  OPENAI_API_KEY :: "string option"
  OPENAI_MODEL :: "string option"
  fetch_json :: "request \<Rightarrow> json option"
  json_parse :: "string \<Rightarrow> json option"
  array_to_string :: "json list \<Rightarrow> string"

text \<open>The text handed to \<^verbatim>\<open>JSON.parse\<close>: the span from the first \<^verbatim>\<open>{\<close> to the last \<^verbatim>\<open>}\<close> when
  the reply has both, the whole reply otherwise.\<close>

definition json_span :: "'a \<Rightarrow> 'a \<Rightarrow> 'a list \<Rightarrow> 'a list" where
  "json_span ob cb content =
     (case (indexOf content ob, lastIndexOf content cb) of
        (Some firstBrace, Some lastBrace) \<Rightarrow> slice firstBrace (lastBrace + 1) content
      | _ \<Rightarrow> content)"

text \<open>
  The statements of the \<^verbatim>\<open>try\<close> block after the reply \<open>data\<close> has arrived; \<open>Inl\<close> is an
  exception thrown in the block. A reply text that is a string is searched for the
  braces; one that is an array has the array methods of the same names, and
  \<^verbatim>\<open>JSON.parse\<close> converts it to a string; any other value that is not falsy has no
  \<^verbatim>\<open>indexOf\<close>, and the call throws.
\<close>

definition read_reply :: "analyze_env \<Rightarrow> json \<Rightarrow> error + json option" where
  "read_reply env data =
     (let content = get_prop (get_prop (get_first (get_prop (Some data) ''choices'')) ''message'') ''content''
      in if \<not> truthy content then Inr None
         else case content of
             Some (JStr s) \<Rightarrow>
               (case json_parse env (json_span CHR ''{'' CHR ''}'' s) of
                  None \<Rightarrow> Inl SyntaxError
                | Some parsed \<Rightarrow>
                    if \<not> truthy (get_prop (Some parsed) ''summary'') \<or>
                       \<not> (case get_prop (Some parsed) ''files'' of Some (JArr fs) \<Rightarrow> True | _ \<Rightarrow> False)
                    then Inr None else Inr (Some parsed))
           | Some (JArr xs) \<Rightarrow>
               (case json_parse env (array_to_string env (json_span (JStr ''{'') (JStr ''}'') xs)) of
                  None \<Rightarrow> Inl SyntaxError
                | Some parsed \<Rightarrow>
                    if \<not> truthy (get_prop (Some parsed) ''summary'') \<or>
                       \<not> (case get_prop (Some parsed) ''files'' of Some (JArr fs) \<Rightarrow> True | _ \<Rightarrow> False)
                    then Inr None else Inr (Some parsed))
           | _ \<Rightarrow> Inl TypeError)"

text \<open>
  \<^verbatim>\<open>analyzePromptContext\<close>: the requests it has sent, and what the promise settles to:
  \<open>Inl\<close> when it rejects, \<open>Inr None\<close> for \<^verbatim>\<open>null\<close>, \<open>Inr (Some parsed)\<close> for an analysis.
\<close>

definition analyzePromptContext ::
  "analyze_env \<Rightarrow> PromptKeywordHit list \<Rightarrow> PythonPrompt list \<Rightarrow> FileTreeNodeLite option
     \<Rightarrow> request list \<times> (error + json option)" where
  "analyzePromptContext env hits python fileTree =
     (case OPENAI_API_KEY env of
        None \<Rightarrow> ([], Inr None)
      | Some apiKey \<Rightarrow>
          if apiKey = [] then ([], Inr None)
          else
            (let req = \<lparr>req_model = (case OPENAI_MODEL env of
                                       None \<Rightarrow> ''gpt-4o-mini''
                                     | Some m \<Rightarrow> if m = [] then ''gpt-4o-mini'' else m),
                         req_paths = flattenFileTree fileTree 3 400,
                         req_hits = map (\<lambda>h. h\<lparr>snippet := take 400 (snippet h)\<rparr>) (take 200 hits),
                         req_python = map (\<lambda>p. p\<lparr>prompt_text := take 500 (prompt_text p)\<rparr>) (take 150 python)\<rparr>
             in ([req],
                 (case fetch_json env req of
                    None \<Rightarrow> Inr None
                  | Some data \<Rightarrow>
                      (case read_reply env data of
                         Inl e \<Rightarrow> Inr None
                       | Inr r \<Rightarrow> Inr r)))))"

section \<open>Aggregator (route.ts, POST)\<close>

text \<open>The node that a path names in the tree \<open>node\<close> of the directory \<open>dir\<close>: the paths
  are those that \<open>join\<close> builds on the way down.\<close>

fun find_path :: "string \<Rightarrow> fsnode \<Rightarrow> string \<Rightarrow> fsnode option"
  and find_in_entries :: "string \<Rightarrow> (string \<times> fsnode) list \<Rightarrow> string \<Rightarrow> fsnode option"
where
  "find_path dir (DirNode es) p = (if dir = p then Some (DirNode es) else find_in_entries dir es p)"
| "find_path dir (FileNode sz c) p = (if dir = p then Some (FileNode sz c) else None)"
| "find_path dir LockedDir p = (if dir = p then Some LockedDir else None)"
| "find_path dir OtherNode p = (if dir = p then Some OtherNode else None)"
| "find_in_entries dir [] p = None"
| "find_in_entries dir ((name, nd) # es) p =
     (case find_path (join dir name) nd p of
        Some n \<Rightarrow> Some n
      | None \<Rightarrow> find_in_entries dir es p)"

text \<open>
  The loop \<^verbatim>\<open>for (const file of files)\<close> of the handler; the state is the two arrays
  \<^verbatim>\<open>secretFindings\<close> and \<^verbatim>\<open>promptKeywordHits\<close>. A file that \<^verbatim>\<open>stat\<close> or \<^verbatim>\<open>readFile\<close> rejects
  is passed over by the inner \<^verbatim>\<open>catch\<close>. The result is \<open>None\<close> when a scanner does not
  return.
\<close>

fun scan_files ::
  "string \<Rightarrow> fsnode \<Rightarrow> string list \<Rightarrow> SecretFinding list \<times> PromptKeywordHit list
     \<Rightarrow> (SecretFinding list \<times> PromptKeywordHit list) option" where
  "scan_files targetDir fs [] (secretFindings, promptKeywordHits) =
     Some (secretFindings, promptKeywordHits)"
| "scan_files targetDir fs (file # files) (secretFindings, promptKeywordHits) =
     (if str_includes (toLowerCase file) ''prisma''
      then scan_files targetDir fs files (secretFindings, promptKeywordHits)
      else case find_path targetDir fs file of
          Some (FileNode sz (Some content)) \<Rightarrow>
            if sz > 1024 * 1024
            then scan_files targetDir fs files (secretFindings, promptKeywordHits)
            else
              (case scanTextForSecrets content file of
                 None \<Rightarrow> None
               | Some findings \<Rightarrow>
                   (case scanTextForPromptKeywords content file of
                      None \<Rightarrow> None
                    | Some promptHits \<Rightarrow>
                        (let secretFindings' =
                               (if findings \<noteq> [] then secretFindings @ take 5 findings
                                else secretFindings);
                             promptKeywordHits' =
                               (if promptHits \<noteq> [] then promptKeywordHits @ take 10 promptHits
                                else promptKeywordHits)
                         in if length secretFindings' > 200
                            then Some (secretFindings', promptKeywordHits')
                            else scan_files targetDir fs files (secretFindings', promptKeywordHits'))))
        | _ \<Rightarrow> scan_files targetDir fs files (secretFindings, promptKeywordHits))"

record ScanResponse =
  ok :: bool
  extracted_python :: "PythonPrompt list"
  secrets :: "SecretFinding list"
  prompt_keywords :: "PromptKeywordHit list"
  prompt_analysis :: "json option"
  fileTree :: "FileTreeNode option"

record run_env =
  extractor :: extractor_env
  analyzer :: analyze_env
  localeCompare :: "string \<Rightarrow> string \<Rightarrow> bool"

text \<open>
  The handler from the extraction on, for a target directory that the checks before it
  have accepted: \<open>fs\<close> is the tree of the target directory. The result is the tree after
  the run, the requests sent to the service, and the body of the response; it is \<open>None\<close>
  when a scanner does not return. Each \<^verbatim>\<open>catch\<close> of the handler is the \<open>Inl\<close> branch of a
  \<open>case\<close>.
\<close>

definition scan_run ::
  "run_env \<Rightarrow> bool \<Rightarrow> string \<Rightarrow> fsnode \<Rightarrow> (fsnode \<times> request list \<times> ScanResponse) option" where
  "scan_run env useModel targetDir fs =
     (case extractPythonPrompts (extractor env) targetDir fs of
        (fs1, extracted) \<Rightarrow>
          (let pythonPrompts = (case extracted of Inl e \<Rightarrow> [] | Inr ps \<Rightarrow> ps)
           in case (case listAllFiles targetDir fs1 3000 of
                      Inl e \<Rightarrow> Some ([], [])
                    | Inr files \<Rightarrow> scan_files targetDir fs1 files ([], [])) of
                None \<Rightarrow> None
              | Some (secretFindings, promptKeywordHits) \<Rightarrow>
                  (let (reqs, modelAnalysis) =
                         (if useModel then
                            (case analyzePromptContext (analyzer env) promptKeywordHits pythonPrompts
                                    (Some (buildFileTree (localeCompare env) targetDir fs1 4 1200)) of
                               (reqs, Inl e) \<Rightarrow> (reqs, None)
                             | (reqs, Inr a) \<Rightarrow> (reqs, a))
                          else ([], None))
                   in Some (fs1, reqs,
                        \<lparr>ok = True, extracted_python = pythonPrompts, secrets = secretFindings,
                         prompt_keywords = promptKeywordHits, prompt_analysis = modelAnalysis,
                         fileTree = Some (buildFileTree (localeCompare env) targetDir fs1 8 5000)\<rparr>))))"

section \<open>Properties of the matcher\<close>

text \<open>A pattern is \<open>solid\<close> when every match of it reads a character that is not white
  space.\<close>

fun solid :: "regex \<Rightarrow> bool" where
  "solid (Lit c) = (\<not> is_space c)"
| "solid (Seq a b) = (solid a \<or> solid b)"
| "solid (Alt a b) = (solid a \<and> solid b)"
| "solid (Group n r) = solid r"
| "solid (Rep g mn mx r) = (solid r \<and> mn \<noteq> 0 \<and> mx \<noteq> Some 0)"
| "solid r = False"

lemma lower_not_space: "in_range CHR ''a'' CHR ''z'' c \<Longrightarrow> \<not> is_space c"
  by (auto simp: in_range_def is_space_def less_eq_char_def)

lemma upper_of_lower_not_space:
  "in_range CHR ''a'' CHR ''z'' (Char b0 b1 b2 b3 b4 b5 b6 b7) \<Longrightarrow> \<not> is_space (Char b0 b1 b2 b3 b4 False b6 b7)"
  by (cases b0; cases b1; cases b2; cases b3; cases b4; cases b5; cases b6; cases b7)
     (simp_all add: in_range_def is_space_def less_eq_char_def)

lemma is_space_ascii_upper: "is_space (ascii_upper c) = is_space c"
proof (cases "in_range CHR ''a'' CHR ''z'' c")
  case True
  obtain b0 b1 b2 b3 b4 b5 b6 b7 where c: "c = Char b0 b1 b2 b3 b4 b5 b6 b7" by (cases c)
  from True show ?thesis
    using lower_not_space[OF True] upper_of_lower_not_space[of b0 b1 b2 b3 b4 b5 b6 b7]
    by (simp add: ascii_upper_def c)
next
  case False
  then show ?thesis by (simp add: ascii_upper_def)
qed

lemma canon_space: "canon ic d = canon ic c \<Longrightarrow> is_space d = is_space c"
  by (metis canon_def is_space_ascii_upper)

lemma step_char_elim:
  assumes "st' \<in> set (step_char p st)"
  obtains d where "rest st = d # rest st'" "p d" "prev st' = Some d" "caps st' = caps st"
  using assms by (cases st; cases "rest st") (auto split: if_splits)

definition moved :: "mstate \<Rightarrow> string \<Rightarrow> mstate \<Rightarrow> bool" where
  "moved st u st' = (rest st = u @ rest st' \<and> prev st' = (if u = [] then prev st else Some (last u)))"

lemma moved_refl [simp]: "moved st [] st"
  by (simp add: moved_def)

lemma moved_trans: "moved st u1 st1 \<Longrightarrow> moved st1 u2 st' \<Longrightarrow> moved st (u1 @ u2) st'"
  by (auto simp: moved_def)

lemma step_char_moved:
  "st' \<in> set (step_char p st) \<Longrightarrow> \<exists>d. moved st [d] st' \<and> p d"
  by (auto elim!: step_char_elim simp: moved_def)

lemma step_string_rest:
  "st' \<in> set (step_string ic t st) \<Longrightarrow> \<exists>u. moved st u st'"
proof (induction ic t st rule: step_string.induct)
  case (1 ic st)
  then show ?case by (auto intro: exI[of _ "[]"])
next
  case (3 ic c t d ds pv cs)
  then have m: "canon ic d = canon ic c" and "st' \<in> set (step_string ic t (MState ds (Some d) cs))"
    by (auto split: if_splits)
  with 3 obtain u where "moved (MState ds (Some d) cs) u st'" by auto
  then have "moved (MState (d # ds) pv cs) (d # u) st'" by (auto simp: moved_def)
  then show ?case by blast
qed auto

lemma rmatch_moved:
  "st' \<in> set (rmatch ic r st) \<Longrightarrow>
     \<exists>u. moved st u st' \<and> (solid r \<longrightarrow> (\<exists>c \<in> set u. \<not> is_space c))"
proof (induction ic r st arbitrary: st' rule: rmatch.induct)
  case (1 ic st)
  then show ?case by (auto intro: exI[of _ "[]"])
next
  case (2 ic c st)
  then obtain d where "moved st [d] st'" "canon ic d = canon ic c"
    by (auto dest: step_char_moved)
  then show ?case using canon_space[of ic d c] by (intro exI[of _ "[d]"]) simp
next
  case (3 ic st)
  then obtain d where "moved st [d] st'" by (auto dest: step_char_moved)
  then show ?case by (intro exI[of _ "[d]"]) simp
next
  case (4 ic neg items st)
  then obtain d where "moved st [d] st'" by (auto dest: step_char_moved)
  then show ?case by (intro exI[of _ "[d]"]) simp
next
  case (5 ic st)
  then show ?case by (auto split: if_splits intro: exI[of _ "[]"])
next
  case (6 ic a b st)
  from "6.prems" obtain st1 where s1: "st1 \<in> set (rmatch ic a st)" and s2: "st' \<in> set (rmatch ic b st1)"
    by auto
  from "6.IH"(1)[OF s1] obtain u1 where u1: "moved st u1 st1" "solid a \<longrightarrow> (\<exists>c \<in> set u1. \<not> is_space c)" by blast
  from "6.IH"(2)[OF s1 s2] obtain u2 where u2: "moved st1 u2 st'" "solid b \<longrightarrow> (\<exists>c \<in> set u2. \<not> is_space c)" by blast
  from u1 u2 moved_trans[OF u1(1) u2(1)] show ?case by (intro exI[of _ "u1 @ u2"]) auto
next
  case (7 ic a b st)
  from "7.prems" consider "st' \<in> set (rmatch ic a st)" | "st' \<in> set (rmatch ic b st)" by auto
  then show ?case
  proof cases
    case 1
    from "7.IH"(1)[OF 1] show ?thesis by auto
  next
    case 2
    from "7.IH"(2)[OF 2] show ?thesis by auto
  qed
next
  case (8 ic n r st)
  from "8.prems" obtain st1 where s1: "st1 \<in> set (rmatch ic r st)"
    and "rest st' = rest st1" "prev st' = prev st1" by auto
  with "8.IH"[OF s1] show ?case by (simp add: moved_def)
next
  case (9 ic n st)
  then show ?case by (auto split: option.splits dest: step_string_rest intro: exI[of _ "[]"])
next
  case (10 ic greedy mn mx r st)
  note unf = "10.prems"[unfolded rmatch_Rep[of ic greedy mn mx r st]]
  show ?case
  proof (cases "mx = Some 0")
    case True
    with unf show ?thesis by (auto intro: exI[of _ "[]"])
  next
    case mx: False
    show ?thesis
    proof (cases "mn \<noteq> 0")
      case True
      with mx unf obtain st1 where s1: "st1 \<in> set (rmatch ic r st)"
        and s2: "st' \<in> set (rmatch ic (Rep greedy (mn - 1) (dec_max mx) r) st1)"
        by auto
      from "10.IH"(1)[OF mx True s1] obtain u1 where u1: "moved st u1 st1" "solid r \<longrightarrow> (\<exists>c \<in> set u1. \<not> is_space c)" by blast
      from "10.IH"(2)[OF mx True s1 s2] obtain u2 where u2: "moved st1 u2 st'" by blast
      from u1 moved_trans[OF u1(1) u2] show ?thesis by (intro exI[of _ "u1 @ u2"]) auto
    next
      case mn: False
      then have ns: "\<not> solid (Rep greedy mn mx r)" by simp
      show ?thesis
      proof (cases "st' = st")
        case True
        with ns show ?thesis by (auto intro: exI[of _ "[]"])
      next
        case ne: False
        with mx mn unf obtain st1 where s1: "st1 \<in> set (rmatch ic r st)"
            and lt: "length (rest st1) < length (rest st)"
            and s2: "st' \<in> set (rmatch ic (Rep greedy 0 (dec_max mx) r) st1)"
            by (cases greedy) (auto split: if_splits)
        have "\<exists>u1. moved st u1 st1"
          using "10.IH"(3)[OF mx mn _ s1] "10.IH"(5)[OF mx mn _ s1] by (cases greedy) blast+
        then obtain u1 where u1: "moved st u1 st1" by blast
        have "\<exists>u2. moved st1 u2 st'"
          using "10.IH"(4)[OF mx mn _ s1 lt s2] "10.IH"(6)[OF mx mn _ s1 lt s2] by (cases greedy) blast+
        then obtain u2 where u2: "moved st1 u2 st'" by blast
        from moved_trans[OF u1 u2] ns show ?thesis by blast
      qed
    qed
  qed
qed

text \<open>The character before position \<open>q\<close> of \<open>s\<close>, where \<open>pv\<close> is the one before \<open>s\<close>.\<close>

definition pv_at :: "char option \<Rightarrow> string \<Rightarrow> nat \<Rightarrow> char option" where
  "pv_at pv s q = (if q = 0 then pv else Some (s ! (q - 1)))"

lemma pv_at_0 [simp]: "pv_at pv s 0 = pv"
  by (simp add: pv_at_def)

lemma pv_at_Cons: "pv_at pv (c # cs) (Suc q) = pv_at (Some c) cs q"
  by (cases q) (simp_all add: pv_at_def)

lemma pv_at_drop: "k + q \<le> length L \<Longrightarrow> pv_at (pv_at pv L k) (drop k L) q = pv_at pv L (k + q)"
  by (cases q) (simp_all add: pv_at_def)

lemma first_match_Some:
  assumes "first_match ic r pv s = Some st"
  shows "\<exists>u. s = u @ rest st \<and> prev st = (if u = [] then pv else Some (last u)) \<and>
             consumed (MState s pv []) st = u \<and> (solid r \<longrightarrow> (\<exists>c \<in> set u. \<not> is_space c))"
proof -
  from assms have "st \<in> set (rmatch ic r (MState s pv []))"
    by (auto simp: first_match_def split: list.splits)
  from rmatch_moved[OF this] obtain u where
    "moved (MState s pv []) u st" "solid r \<longrightarrow> (\<exists>c \<in> set u. \<not> is_space c)" by blast
  then show ?thesis by (intro exI[of _ u]) (auto simp: moved_def consumed_def)
qed

lemma search_Some:
  "search ic r pv s k = Some (i, txt, st) \<Longrightarrow>
     \<exists>q. i = k + q \<and> q \<le> length s \<and> first_match ic r (pv_at pv s q) (drop q s) = Some st \<and>
         drop q s = txt @ rest st \<and>
         (\<forall>q' < q. first_match ic r (pv_at pv s q') (drop q' s) = None)"
proof (induction s arbitrary: pv k)
  case Nil
  then have fm: "first_match ic r pv [] = Some st" and "i = k" "txt = []"
    by (auto split: option.splits)
  from first_match_Some[OF fm] have "rest st = []" by auto
  with fm \<open>i = k\<close> \<open>txt = []\<close> show ?case by (intro exI[of _ 0]) simp
next
  case (Cons c cs)
  show ?case
  proof (cases "first_match ic r pv (c # cs)")
    case None
    with Cons.prems have "search ic r (Some c) cs (Suc k) = Some (i, txt, st)" by simp
    from Cons.IH[OF this] obtain q where q: "i = Suc k + q" "q \<le> length cs"
      "first_match ic r (pv_at (Some c) cs q) (drop q cs) = Some st"
      "drop q cs = txt @ rest st"
      "\<forall>q' < q. first_match ic r (pv_at (Some c) cs q') (drop q' cs) = None" by blast
    have "\<forall>q' < Suc q. first_match ic r (pv_at pv (c # cs) q') (drop q' (c # cs)) = None"
    proof (intro allI impI)
      fix q' assume "q' < Suc q"
      then show "first_match ic r (pv_at pv (c # cs) q') (drop q' (c # cs)) = None"
        using None q(5) by (cases q') (simp_all add: pv_at_Cons)
    qed
    with q show ?thesis
      by (intro exI[of _ "Suc q"]) (simp add: pv_at_Cons)
  next
    case (Some st0)
    with Cons.prems have e: "i = k" "st = st0" "txt = consumed (MState (c # cs) pv []) st0" by auto
    from first_match_Some[OF Some] obtain u where
      u: "c # cs = u @ rest st0" "consumed (MState (c # cs) pv []) st0 = u" by blast
    from u e have b: "drop 0 (c # cs) = txt @ rest st" by simp
    from Some e(2) have a: "first_match ic r (pv_at pv (c # cs) 0) (drop 0 (c # cs)) = Some st" by simp
    show ?thesis
    proof (intro exI[of _ 0] conjI)
      show "i = k + 0" using e(1) by simp
      show "first_match ic r (pv_at pv (c # cs) 0) (drop 0 (c # cs)) = Some st" by (rule a)
      show "drop 0 (c # cs) = txt @ rest st" by (rule b)
    qed simp_all
  qed
qed

lemma search_None:
  "search ic r pv s k = None \<Longrightarrow> q \<le> length s \<Longrightarrow> first_match ic r (pv_at pv s q) (drop q s) = None"
proof (induction s arbitrary: pv k q)
  case Nil
  then show ?case by (auto split: option.splits)
next
  case (Cons c cs)
  from Cons.prems(1) have fm: "first_match ic r pv (c # cs) = None"
    and s: "search ic r (Some c) cs (Suc k) = None"
    by (auto split: option.splits)
  show ?case
  proof (cases q)
    case 0
    with fm show ?thesis by (simp)
  next
    case (Suc q')
    with Cons.prems(2) have "q' \<le> length cs" by simp
    from Cons.IH[OF s this] Suc show ?thesis by (simp add: pv_at_Cons)
  qed
qed

text \<open>
  What the \<^verbatim>\<open>exec\<close> loop reports for a line \<open>L\<close>: \<open>is_match\<close> says that the entry
  \<open>(i, txt, st)\<close> is the match that the pattern makes at index \<open>i\<close>, with text \<open>txt\<close>;
  \<open>can_match\<close> says that the pattern matches at index \<open>p\<close>.
\<close>

definition can_match :: "bool \<Rightarrow> regex \<Rightarrow> string \<Rightarrow> nat \<Rightarrow> bool" where
  "can_match ic r L p = (first_match ic r (pv_at None L p) (drop p L) \<noteq> None)"

definition is_match :: "bool \<Rightarrow> regex \<Rightarrow> string \<Rightarrow> nat \<times> string \<times> mstate \<Rightarrow> bool" where
  "is_match ic r L m =
     (case m of (i, txt, st) \<Rightarrow>
        i + length txt \<le> length L \<and> take (length txt) (drop i L) = txt \<and>
        first_match ic r (pv_at None L i) (drop i L) = Some st \<and>
        rest st = drop (i + length txt) L)"

definition covered :: "(nat \<times> string \<times> mstate) list \<Rightarrow> nat \<Rightarrow> bool" where
  "covered ms p = (\<exists>m \<in> set ms. fst m \<le> p \<and> p < fst m + length (fst (snd m)))"

lemma exec_all_spec:
  assumes "solid r"
  shows "k \<le> length L \<Longrightarrow>
     \<exists>ms. exec_all ic r (pv_at None L k) (drop k L) k acc = Some (acc @ ms) \<and>
          (\<forall>m \<in> set ms. is_match ic r L m \<and> k \<le> fst m \<and> (\<exists>c \<in> set (fst (snd m)). \<not> is_space c)) \<and>
          (\<forall>p. k \<le> p \<and> p \<le> length L \<and> can_match ic r L p \<longrightarrow> covered ms p)"
proof (induction "length L - k" arbitrary: k acc rule: less_induct)
  case less
  show ?case
  proof (cases "search ic r (pv_at None L k) (drop k L) k")
    case None
    have "\<not> can_match ic r L p" if "k \<le> p" "p \<le> length L" for p
    proof -
      from that have "p - k \<le> length (drop k L)" by simp
      from search_None[OF None this] that less.prems show ?thesis
        by (simp add: can_match_def pv_at_drop)
    qed
    with None show ?thesis
      by (subst exec_all.simps) (auto intro!: exI[of _ "[]"])
  next
    case (Some m)
    obtain i mt st where m: "m = (i, mt, st)" by (cases m)
    from search_Some[OF Some[unfolded m]] obtain q where q: "i = k + q" "q \<le> length (drop k L)"
      "first_match ic r (pv_at (pv_at None L k) (drop k L) q) (drop q (drop k L)) = Some st"
      "drop q (drop k L) = mt @ rest st"
      "\<forall>q' < q. first_match ic r (pv_at (pv_at None L k) (drop k L) q') (drop q' (drop k L)) = None"
      by blast
    from q(1,2) less.prems have iL: "i \<le> length L" by simp
    from q(1,2) less.prems have kq: "k + q \<le> length L" by simp
    from q(3) have fm: "first_match ic r (pv_at None L i) (drop i L) = Some st"
      using pv_at_drop[OF kq, of None] q(1) by (simp add: add.commute)
    from q(4) q(1) have dr: "drop i L = mt @ rest st" by (simp add: add.commute)
    from first_match_Some[OF fm] assms obtain u where u: "drop i L = u @ rest st"
      "prev st = (if u = [] then pv_at None L i else Some (last u))" "\<exists>c \<in> set u. \<not> is_space c"
      by blast
    from u(1) dr have ut: "u = mt" by simp
    with u(3) have ne: "mt \<noteq> []" by auto
    from dr have "length (drop i L) = length (mt @ rest st)" by simp
    with iL have len: "i + length mt \<le> length L" by simp
    have "drop (length mt) (drop i L) = rest st" using dr by simp
    then have rs: "rest st = drop (i + length mt) L" by (simp add: add.commute)
    from dr have tk: "take (length mt) (drop i L) = mt" by simp
    define k' where "k' = i + length mt"
    have "L ! (i + (length mt - 1)) = drop i L ! (length mt - 1)"
      using iL by simp
    also have "\<dots> = mt ! (length mt - 1)" using ne dr by (simp add: nth_append)
    also have "\<dots> = last mt" using ne by (simp add: last_conv_nth)
    finally have "L ! (i + (length mt - 1)) = last mt" .
    moreover from ne have "i + (length mt - 1) = k' - 1" by (cases mt) (simp_all add: k'_def)
    ultimately have lastc: "L ! (k' - 1) = last mt" by simp
    from ne have pv': "prev st = pv_at None L k'"
      using u(2) ut lastc by (simp add: pv_at_def k'_def)
    have k'k: "k < k'" using q(1) ne by (simp add: k'_def)
    have k'L: "k' \<le> length L" using len by (simp add: k'_def)
    from k'k k'L have "length L - k' < length L - k" by simp
    from less.hyps[OF this k'L, of "acc @ [m]"] obtain ms' where ms':
      "exec_all ic r (pv_at None L k') (drop k' L) k' (acc @ [m]) = Some ((acc @ [m]) @ ms')"
      "\<forall>m \<in> set ms'. is_match ic r L m \<and> k' \<le> fst m \<and> (\<exists>c \<in> set (fst (snd m)). \<not> is_space c)"
      "\<forall>p. k' \<le> p \<and> p \<le> length L \<and> can_match ic r L p \<longrightarrow> covered ms' p"
      by blast
    have im: "is_match ic r L m" using m len tk fm rs by (simp add: is_match_def)
    have ex: "exec_all ic r (pv_at None L k) (drop k L) k acc = Some (acc @ (m # ms'))"
      using Some m ms'(1) pv' rs by (subst exec_all.simps) (simp add: k'_def)
    have cov: "covered (m # ms') p" if "k \<le> p" "p \<le> length L" "can_match ic r L p" for p
    proof -
      consider "p < i" | "i \<le> p" "p < k'" | "k' \<le> p" by linarith
      then show ?thesis
      proof cases
        case 1
        with that(1) q(1) have "p - k < q" by simp
        with q(5) have "first_match ic r (pv_at (pv_at None L k) (drop k L) (p - k)) (drop (p - k) (drop k L)) = None"
          by blast
        with that have False by (simp add: can_match_def pv_at_drop)
        then show ?thesis ..
      next
        case 2
        then show ?thesis by (auto simp: covered_def m k'_def)
      next
        case 3
        with ms'(3) that have "covered ms' p" by blast
        then show ?thesis by (auto simp: covered_def)
      qed
    qed
    show ?thesis
    proof (intro exI[of _ "m # ms'"] conjI ballI allI impI)
      show "exec_all ic r (pv_at None L k) (drop k L) k acc = Some (acc @ m # ms')" by (rule ex)
    next
      fix m' assume "m' \<in> set (m # ms')"
      then consider "m' = m" | "m' \<in> set ms'" by auto
      then show "is_match ic r L m'"  by cases (use im ms'(2) in auto)
    next
      fix m' assume "m' \<in> set (m # ms')"
      then consider "m' = m" | "m' \<in> set ms'" by auto
      then show "k \<le> fst m'"
      proof cases
        case 1 then show ?thesis using m q(1) by simp
      next
        case 2 with ms'(2) k'k show ?thesis by force
      qed
    next
      fix m' assume "m' \<in> set (m # ms')"
      then consider "m' = m" | "m' \<in> set ms'" by auto
      then show "\<exists>c \<in> set (fst (snd m')). \<not> is_space c"
        by cases (use m u(3) ut ms'(2) in auto)
    next
      fix p assume "k \<le> p \<and> p \<le> length L \<and> can_match ic r L p"
      then show "covered (m # ms') p" using cov by blast
    qed
  qed
qed

section \<open>Properties of the directory walker\<close>

lemma walk_budget:
  "length out \<le> N \<Longrightarrow> walk N dir node out = Inr out' \<Longrightarrow> length out' \<le> N"
  "length out \<le> N \<Longrightarrow> walk_entries N dir es out = Inr out' \<Longrightarrow> length out' \<le> N"
proof (induction N dir node out and N dir es out arbitrary: out' and out' rule: walk_walk_entries.induct)
  case (6 maxFiles dir name nd es out)
  show ?case
  proof (cases "length out \<ge> maxFiles")
    case True
    with "6.prems" show ?thesis by simp
  next
    case full: False
    show ?thesis
    proof (cases "name \<in> set ignore")
      case True
      with full "6.prems" "6.IH"(1) show ?thesis by simp
    next
      case ign: False
      show ?thesis
      proof (cases "isDirectory nd")
        case True
        with full ign "6.prems" obtain out1 where
          w: "walk maxFiles (join dir name) nd out = Inr out1"
          and e: "walk_entries maxFiles dir es out1 = Inr out'"
          by (auto split: sum.splits)
        from "6.IH"(2)[OF full ign True "6.prems"(1) w] have "length out1 \<le> maxFiles" .
        from "6.IH"(3)[OF full ign True w this e] show ?thesis .
      next
        case nodir: False
        show ?thesis
        proof (cases "isFile nd")
          case True
          with full ign nodir "6.prems" have e: "walk_entries maxFiles dir es (out @ [join dir name]) = Inr out'" by simp
          from full have "length (out @ [join dir name]) \<le> maxFiles" by simp
          from "6.IH"(4)[OF full ign nodir True this e] show ?thesis .
        next
          case False
          with full ign nodir "6.prems" "6.IH"(5) show ?thesis by simp
        qed
      qed
    qed
  qed
qed simp_all

text \<open>The flat list never holds more than \<open>maxFiles\<close> paths.\<close>

lemma listAllFiles_budget:
  "listAllFiles rootDir node maxFiles = Inr files \<Longrightarrow> length files \<le> maxFiles"
  using walk_budget(1)[of "[]" maxFiles rootDir node files] by (simp add: listAllFiles_def)

declare tree_walk.simps [simp del]

lemma tree_count:
  "nodeCount \<le> snd (tree_walk le maxDepth maxNodes dirPath node depth nodeCount) \<and>
   tree_size (fst (tree_walk le maxDepth maxNodes dirPath node depth nodeCount)) =
     1 + (snd (tree_walk le maxDepth maxNodes dirPath node depth nodeCount) - nodeCount)"
  "nodeCount \<le> snd (tree_entries le maxDepth maxNodes dirPath es depth nodeCount children) \<and>
   sum_list (map tree_size (fst (tree_entries le maxDepth maxNodes dirPath es depth nodeCount children))) =
     sum_list (map tree_size children) +
     (snd (tree_entries le maxDepth maxNodes dirPath es depth nodeCount children) - nodeCount)"
proof (induction le maxDepth maxNodes dirPath node depth nodeCount
         and le maxDepth maxNodes dirPath es depth nodeCount children
       rule: tree_walk_tree_entries.induct)
  case (1 le maxDepth maxNodes dirPath node depth nodeCount)
  show ?case
  proof (cases "maxDepth < depth \<or> maxNodes \<le> nodeCount")
    case True
    then show ?thesis by (simp add: tree_walk.simps)
  next
    case go: False
    show ?thesis
    proof (cases node)
      case (DirNode es)
      from "1.IH"[OF go DirNode] show ?thesis
        using go DirNode by (auto simp add: tree_walk.simps split: prod.splits)
    qed (use go in \<open>simp_all add: tree_walk.simps\<close>)
  qed
next
  case (2 le maxDepth maxNodes dirPath depth nodeCount children)
  show ?case by simp
next
  case (3 le maxDepth maxNodes dirPath name nd es depth nodeCount children)
  show ?case
  proof (cases "maxNodes \<le> nodeCount")
    case True
    then show ?thesis by simp
  next
    case room: False
    show ?thesis
    proof (cases "name \<in> set ignore")
      case True
      with room "3.IH"(1) show ?thesis by simp
    next
      case ign: False
      show ?thesis
      proof (cases "str_includes (toLowerCase (join dirPath name)) ''prisma''")
        case True
        with room ign "3.IH"(2) show ?thesis by simp
      next
        case np: False
        show ?thesis
        proof (cases "isDirectory nd")
          case True
          obtain child c1 where w: "tree_walk le maxDepth maxNodes (join dirPath name) nd (depth + 1) nodeCount = (child, c1)"
            by (cases "tree_walk le maxDepth maxNodes (join dirPath name) nd (depth + 1) nodeCount")
          from "3.IH"(3)[OF room ign np True] w
          have a: "nodeCount \<le> c1" "tree_size child = 1 + (c1 - nodeCount)" by simp_all
          from "3.IH"(4)[OF room ign np True w[symmetric]]
          have b: "c1 + 1 \<le> snd (tree_entries le maxDepth maxNodes dirPath es depth (c1 + 1) (children @ [child]))"
            "sum_list (map tree_size (fst (tree_entries le maxDepth maxNodes dirPath es depth (c1 + 1) (children @ [child])))) =
             sum_list (map tree_size (children @ [child])) +
             (snd (tree_entries le maxDepth maxNodes dirPath es depth (c1 + 1) (children @ [child])) - (c1 + 1))"
            by simp_all
          from room ign np True w a b show ?thesis by (simp; linarith)
        next
          case nodir: False
          show ?thesis
          proof (cases "isFile nd")
            case True
            from "3.IH"(5)[OF room ign np nodir True] room ign np nodir True
            show ?thesis by (simp; linarith)
          next
            case False
            from "3.IH"(6)[OF room ign np nodir False] room ign np nodir False
            show ?thesis by simp
          qed
        qed
      qed
    qed
  qed
qed

lemma tree_bound:
  "snd (tree_walk le maxDepth maxNodes dirPath node depth nodeCount)
     \<le> max nodeCount (maxNodes + (maxDepth - depth))"
  "snd (tree_entries le maxDepth maxNodes dirPath es depth nodeCount children)
     \<le> max nodeCount (maxNodes + (maxDepth - depth))"
proof (induction le maxDepth maxNodes dirPath node depth nodeCount
         and le maxDepth maxNodes dirPath es depth nodeCount children
       rule: tree_walk_tree_entries.induct)
  case (1 le maxDepth maxNodes dirPath node depth nodeCount)
  show ?case
  proof (cases "maxDepth < depth \<or> maxNodes \<le> nodeCount")
    case True
    then show ?thesis by (simp add: tree_walk.simps)
  next
    case go: False
    show ?thesis
    proof (cases node)
      case (DirNode es)
      from "1.IH"[OF go DirNode] show ?thesis
        using go DirNode by (auto simp add: tree_walk.simps split: prod.splits)
    qed (use go in \<open>simp_all add: tree_walk.simps\<close>)
  qed
next
  case (2 le maxDepth maxNodes dirPath depth nodeCount children)
  show ?case by simp
next
  case (3 le maxDepth maxNodes dirPath name nd es depth nodeCount children)
  show ?case
  proof (cases "maxNodes \<le> nodeCount")
    case True
    then show ?thesis by simp
  next
    case room: False
    show ?thesis
    proof (cases "name \<in> set ignore")
      case True
      with room "3.IH"(1) show ?thesis by simp
    next
      case ign: False
      show ?thesis
      proof (cases "str_includes (toLowerCase (join dirPath name)) ''prisma''")
        case True
        with room ign "3.IH"(2) show ?thesis by simp
      next
        case np: False
        show ?thesis
        proof (cases "isDirectory nd")
          case True
          obtain child c1 where w: "tree_walk le maxDepth maxNodes (join dirPath name) nd (depth + 1) nodeCount = (child, c1)"
            by (cases "tree_walk le maxDepth maxNodes (join dirPath name) nd (depth + 1) nodeCount")
          have c1: "c1 + 1 \<le> maxNodes + (maxDepth - depth)"
          proof (cases "maxDepth < depth + 1")
            case True
            then have "c1 = nodeCount" using w by (simp add: tree_walk.simps)
            with room show ?thesis by simp
          next
            case False
            from "3.IH"(3)[OF room ign np True] w
            have "c1 \<le> max nodeCount (maxNodes + (maxDepth - (depth + 1)))" by simp
            with room False show ?thesis by simp
          qed
          from "3.IH"(4)[OF room ign np True w[symmetric]]
          have "snd (tree_entries le maxDepth maxNodes dirPath es depth (c1 + 1) (children @ [child]))
                 \<le> max (c1 + 1) (maxNodes + (maxDepth - depth))" .
          with c1 room ign np True w show ?thesis by simp
        next
          case nodir: False
          show ?thesis
          proof (cases "isFile nd")
            case True
            from "3.IH"(5)[OF room ign np nodir True] room ign np nodir True
            show ?thesis by (simp; linarith)
          next
            case False
            from "3.IH"(6)[OF room ign np nodir False] room ign np nodir False
            show ?thesis by simp
          qed
        qed
      qed
    qed
  qed
qed

text \<open>What the counter does bound: a directory is counted when the walk of its subtree
  returns, so each level of nesting can add one node past \<open>maxNodes\<close>.\<close>

lemma buildFileTree_bound:
  "non_root_nodes (buildFileTree le rootDir node maxDepth maxNodes) \<le> maxNodes + (maxDepth - 1)"
  using tree_count(1)[of 0 le maxDepth maxNodes rootDir node 1]
        tree_bound(1)[of le maxDepth maxNodes rootDir node 1 0]
  by (simp add: buildFileTree_def non_root_nodes_def)

text \<open>
  Claim C2, the tree: with \<open>maxNodes = 1\<close>, a root holding a directory \<open>a\<close> that holds a
  file \<open>b\<close> gives a tree of two nodes below the root. The file is counted first, the
  directory after its walk has returned, so the check before the directory still read 0.
\<close>

theorem buildFileTree_exceeds_maxNodes:
  "non_root_nodes
     (buildFileTree le ''/r'' (DirNode [(''a'', DirNode [(''b'', FileNode 0 (Some ''''))])]) 8 1) = 2"
proof -
  have j: "join ''/r'' ''a'' = ''/r/a''" "join ''/r/a'' ''b'' = ''/r/a/b''" by code_simp+
  show ?thesis
    by (simp add: tree_walk.simps buildFileTree_def non_root_nodes_def ignore_def j
          toLowerCase_def toLowerChar_def in_range_def node_name_def)
qed

section \<open>Properties of the secret scanner\<close>










section \<open>Properties of the lexical scanner\<close>

subsection \<open>Keys\<close>

text \<open>The value of a digit is its place among the digits.\<close>

definition digit_val :: "char \<Rightarrow> nat" where
  "digit_val c = length (takeWhile (\<lambda>d. d \<noteq> c) ''0123456789'')"

definition read_nat :: "string \<Rightarrow> nat" where
  "read_nat s = foldl (\<lambda>a c. 10 * a + digit_val c) 0 s"

lemma digit_cases: "d < 10 \<Longrightarrow> d = 0 \<or> d = 1 \<or> d = 2 \<or> d = 3 \<or> d = 4 \<or> d = 5 \<or> d = 6 \<or> d = 7 \<or> d = 8 \<or> d = (9::nat)"
  by arith

lemma digit_val_digit_char: "d < 10 \<Longrightarrow> digit_val (digit_char d) = d"
  using digit_cases[of d] by (auto simp: digit_val_def digit_char_def)

lemma digit_char_not_colon: "d < 10 \<Longrightarrow> digit_char d \<noteq> CHR '':''"
  using digit_cases[of d] by (auto simp: digit_char_def)

lemma read_nat_snoc: "read_nat (s @ [c]) = 10 * read_nat s + digit_val c"
  by (simp add: read_nat_def)

lemma read_show_nat: "read_nat (show_nat n) = n"
proof (induction n rule: show_nat.induct)
  case (1 n)
  show ?case
  proof (cases "n < 10")
    case True
    then show ?thesis by (subst show_nat.simps) (simp add: read_nat_def digit_val_digit_char)
  next
    case False
    with 1 have "read_nat (show_nat (n div 10)) = n div 10" by simp
    with False show ?thesis
      by (subst show_nat.simps) (simp add: read_nat_snoc digit_val_digit_char)
  qed
qed

lemma show_nat_inj: "show_nat a = show_nat b \<Longrightarrow> a = b"
  by (metis read_show_nat)

lemma show_nat_no_colon: "CHR '':'' \<notin> set (show_nat n)"
proof (induction n rule: show_nat.induct)
  case (1 n)
  show ?case
  proof (cases "n < 10")
    case True
    then show ?thesis using digit_char_not_colon[of n] by (subst show_nat.simps) auto
  next
    case False
    with 1 have "CHR '':'' \<notin> set (show_nat (n div 10))" by simp
    with False show ?thesis using digit_char_not_colon[of "n mod 10"]
      by (subst show_nat.simps) auto
  qed
qed

lemma split_at_colon:
  assumes "a @ CHR '':'' # x = b @ CHR '':'' # y" "CHR '':'' \<notin> set a" "CHR '':'' \<notin> set b"
  shows "a = b \<and> x = y"
  using assms
proof (induction a arbitrary: b)
  case Nil
  then show ?case by (cases b) auto
next
  case (Cons c a)
  then show ?case by (cases b) auto
qed

text \<open>A key determines its label and its line number, when the labels hold no colon.\<close>

lemma mk_key_inj:
  assumes "mk_key l n c = mk_key l' n' c'" "CHR '':'' \<notin> set l" "CHR '':'' \<notin> set l'"
  shows "l = l' \<and> n = n' \<and> take 50 c = take 50 c'"
proof -
  from assms(1) have e: "l @ CHR '':'' # (show_nat n @ CHR '':'' # take 50 c) =
                        l' @ CHR '':'' # (show_nat n' @ CHR '':'' # take 50 c')"
    by (simp add: mk_key_def)
  from split_at_colon[OF e assms(2,3)] have l: "l = l'"
    and r: "show_nat n @ CHR '':'' # take 50 c = show_nat n' @ CHR '':'' # take 50 c'" by auto
  from split_at_colon[OF r show_nat_no_colon show_nat_no_colon] have "show_nat n = show_nat n'" "take 50 c = take 50 c'"
    by auto
  with l show ?thesis by (auto dest: show_nat_inj)
qed

subsection \<open>The block extractors\<close>

text \<open>
  The hit that a match of a block pattern stands for, before de-duplication, and the
  list of these candidates in the order the loops meet them.
\<close>

definition mk_hit :: "string \<Rightarrow> string \<Rightarrow> string \<Rightarrow> nat \<Rightarrow> nat \<times> string \<times> mstate \<Rightarrow> PromptKeywordHit" where
  "mk_hit text fp label g m =
     (case m of (idx, mt, st) \<Rightarrow>
        \<lparr>filePath = fp, line = lineNumberAtIndex text idx, matchLabel = label,
         snippet = (case capture st g of None \<Rightarrow> [] | Some c \<Rightarrow> c)\<rparr>)"

fun block_candidates ::
  "(string \<times> bool \<times> regex \<times> nat) list \<Rightarrow> string \<Rightarrow> string \<Rightarrow> PromptKeywordHit list option" where
  "block_candidates [] text fp = Some []"
| "block_candidates ((label, ic, r, g) # ps) text fp =
     (case exec_all ic r None text 0 [] of
        None \<Rightarrow> None
      | Some ms \<Rightarrow>
          (case block_candidates ps text fp of
             None \<Rightarrow> None
           | Some cs \<Rightarrow> Some (map (mk_hit text fp label g) ms @ cs)))"

text \<open>The string that the code makes for the key of a hit.\<close>

definition hit_key :: "PromptKeywordHit \<Rightarrow> string" where
  "hit_key h = mk_key (matchLabel h) (line h) (snippet h)"

text \<open>De-duplication with the keys of the code: a hit is dropped when the string that
  stands for its key is in the set \<open>emitted\<close>.\<close>

fun keep_first :: "string set \<Rightarrow> PromptKeywordHit list \<Rightarrow> PromptKeywordHit list" where
  "keep_first emitted [] = []"
| "keep_first emitted (h # hs) =
     (if hit_key h \<in> emitted then keep_first emitted hs
      else h # keep_first (insert (hit_key h) emitted) hs)"

lemma keep_first_append:
  "keep_first seen (xs @ ys) = keep_first seen xs @ keep_first (seen \<union> hit_key ` set xs) ys"
proof (induction xs arbitrary: seen)
  case Nil
  then show ?case by simp
next
  case (Cons x xs)
  have "insert (hit_key x) seen = seen" if "hit_key x \<in> seen" using that by auto
  with Cons show ?case by (simp add: insert_absorb Un_insert_left[symmetric] del: Un_insert_left)
qed

lemma block_matches_keep:
  "block_matches text fp label g ms (seen, hits) =
     (seen \<union> hit_key ` set (map (mk_hit text fp label g) ms),
      hits @ keep_first seen (map (mk_hit text fp label g) ms))"
proof (induction ms arbitrary: seen hits)
  case Nil
  then show ?case by simp
next
  case (Cons m ms)
  obtain idx mt st where m: "m = (idx, mt, st)" by (cases m)
  show ?case
    by (simp add: m Cons mk_hit_def hit_key_def Let_def insert_absorb)
qed

lemma scan_blocks_spec:
  assumes "\<forall>(label, ic, r, g) \<in> set ps. solid r"
  shows "\<exists>cands. block_candidates ps text fp = Some cands \<and>
           scan_blocks ps text fp (seen, hits) =
             Some (seen \<union> hit_key ` set cands, hits @ keep_first seen cands) \<and>
           (\<forall>c \<in> set cands. matchLabel c \<in> fst ` set ps \<and> 1 \<le> line c \<and> filePath c = fp)"
  using assms
proof (induction ps arbitrary: seen hits)
  case Nil
  then show ?case by simp
next
  case (Cons pat ps)
  obtain label ic r g where pat: "pat = (label, ic, r, g)" by (cases pat)
  with Cons.prems have sr: "solid r" and sps: "\<forall>(label, ic, r, g) \<in> set ps. solid r" by auto
  from exec_all_spec[OF sr, of 0 "text" ic "[]"] obtain ms where ms: "exec_all ic r None text 0 [] = Some ms"
    by auto
  define here where "here = map (mk_hit text fp label g) ms"
  from Cons.IH[OF sps, of "seen \<union> hit_key ` set here" "hits @ keep_first seen here"]
  obtain cands where c: "block_candidates ps text fp = Some cands"
    "scan_blocks ps text fp (seen \<union> hit_key ` set here, hits @ keep_first seen here) =
       Some (seen \<union> hit_key ` set here \<union> hit_key ` set cands,
             (hits @ keep_first seen here) @ keep_first (seen \<union> hit_key ` set here) cands)"
    "\<forall>c \<in> set cands. matchLabel c \<in> fst ` set ps \<and> 1 \<le> line c \<and> filePath c = fp"
    by blast
  have h: "matchLabel c = label \<and> 1 \<le> line c \<and> filePath c = fp" if "c \<in> set here" for c
    using that by (auto simp: here_def mk_hit_def lineNumberAtIndex_def)
  show ?case
  proof (intro exI[of _ "here @ cands"] conjI)
    show "block_candidates (pat # ps) text fp = Some (here @ cands)"
      using ms c(1) by (simp add: pat here_def)
    show "scan_blocks (pat # ps) text fp (seen, hits) =
            Some (seen \<union> hit_key ` set (here @ cands), hits @ keep_first seen (here @ cands))"
      using ms c(2) by (simp add: pat block_matches_keep here_def keep_first_append image_Un Un_assoc)
    show "\<forall>c \<in> set (here @ cands). matchLabel c \<in> fst ` set (pat # ps) \<and> 1 \<le> line c \<and> filePath c = fp"
      using h c(3) by (auto simp: pat)
  qed
qed

subsection \<open>The line heuristics\<close>

text \<open>The hit of line \<open>i\<close> as the specification words it: the first matcher of the table
  that accepts the line gives its label, and there is no hit when none accepts it.\<close>

definition line_candidate :: "string list \<Rightarrow> string \<Rightarrow> nat \<Rightarrow> PromptKeywordHit list" where
  "line_candidate ls fp i =
     (case find (\<lambda>(label, tst). tst (ls ! i)) keywordMatchers of
        None \<Rightarrow> []
      | Some (label, tst) \<Rightarrow>
          [\<lparr>filePath = fp, line = i + 1, matchLabel = label, snippet = line_snippet ls i\<rparr>])"

definition line_candidates :: "string list \<Rightarrow> string \<Rightarrow> PromptKeywordHit list" where
  "line_candidates ls fp = concat (map (line_candidate ls fp) [0..<length ls])"

lemma matcher_labels_no_colon: "\<forall>label \<in> fst ` set keywordMatchers. CHR '':'' \<notin> set label"
  by (simp add: keywordMatchers_def)

lemma block_labels_no_colon: "\<forall>label \<in> fst ` set blockPatterns. CHR '':'' \<notin> set label"
  by (simp add: blockPatterns_def)

lemma labels_disjoint: "fst ` set keywordMatchers \<inter> fst ` set blockPatterns = {}"
  by (simp add: keywordMatchers_def blockPatterns_def)

text \<open>No key that a line heuristic can make for line \<open>i\<close> or a later one is in \<open>seen\<close>.\<close>

definition fresh :: "string set \<Rightarrow> nat \<Rightarrow> bool" where
  "fresh seen i = (\<forall>label \<in> fst ` set keywordMatchers. \<forall>j \<ge> i. \<forall>c. mk_key label (j + 1) c \<notin> seen)"

lemma try_matchers_spec:
  assumes "\<forall>label \<in> fst ` set ms. \<forall>c. mk_key label (i + 1) c \<notin> seen"
  shows "try_matchers ms ls fp i (seen, hits) =
     (case find (\<lambda>(label, tst). tst (ls ! i)) ms of
        None \<Rightarrow> (seen, hits)
      | Some (label, tst) \<Rightarrow>
          (insert (mk_key label (i + 1) (line_snippet ls i)) seen,
           hits @ [\<lparr>filePath = fp, line = i + 1, matchLabel = label, snippet = line_snippet ls i\<rparr>]))"
  using assms
proof (induction ms)
  case Nil
  then show ?case by simp
next
  case (Cons m ms)
  obtain label tst where m: "m = (label, tst)" by (cases m)
  from Cons.prems m have nk: "mk_key label (i + 1) (line_snippet ls i) \<notin> seen" by simp
  from Cons.prems have "\<forall>label \<in> fst ` set ms. \<forall>c. mk_key label (i + 1) c \<notin> seen" by simp
  from Cons.IH[OF this] nk show ?case by (simp add: m Let_def)
qed

lemma fresh_step:
  assumes "fresh seen i" "label \<in> fst ` set keywordMatchers"
  shows "fresh (insert (mk_key label (i + 1) c) seen) (Suc i)"
  unfolding fresh_def
proof (intro ballI allI impI)
  fix label' j c'
  assume l': "label' \<in> fst ` set keywordMatchers" and j: "Suc i \<le> j"
  from j have "i \<le> j" by simp
  with assms(1) l' have a: "mk_key label' (j + 1) c' \<notin> seen" unfolding fresh_def by blast
  have "mk_key label' (j + 1) c' \<noteq> mk_key label (i + 1) c"
  proof
    assume "mk_key label' (j + 1) c' = mk_key label (i + 1) c"
    from mk_key_inj[OF this] matcher_labels_no_colon l' assms(2) have "j + 1 = i + 1" by blast
    with j show False by simp
  qed
  with a show "mk_key label' (j + 1) c' \<notin> insert (mk_key label (i + 1) c) seen" by simp
qed

lemma fresh_Suc: "fresh seen i \<Longrightarrow> fresh seen (Suc i)"
  unfolding fresh_def by (meson Suc_leD)

lemma find_label_mem:
  "find (\<lambda>(label, tst). tst x) ms = Some (label, tst) \<Longrightarrow> label \<in> fst ` set ms \<and> tst x"
  by (induction ms) (auto split: if_splits)

lemma scan_line_heuristics_spec:
  "fresh seen i \<Longrightarrow>
     snd (scan_line_heuristics ls fp i (seen, hits)) =
       hits @ concat (map (line_candidate ls fp) [i..<length ls])"
proof (induction "length ls - i" arbitrary: i seen hits rule: less_induct)
  case less
  show ?case
  proof (cases "i < length ls")
    case False
    then show ?thesis by (subst scan_line_heuristics.simps) simp
  next
    case True
    from less.prems have nk: "\<forall>label \<in> fst ` set keywordMatchers. \<forall>c. mk_key label (i + 1) c \<notin> seen"
      by (auto simp: fresh_def)
    note tm = try_matchers_spec[OF nk, of ls fp hits]
    from True have up: "[i..<length ls] = i # [Suc i..<length ls]" by (simp add: upt_conv_Cons)
    from True have dec: "length ls - Suc i < length ls - i" by simp
    show ?thesis
    proof (cases "find (\<lambda>(label, tst). tst (ls ! i)) keywordMatchers")
      case None
      with tm have t: "try_matchers keywordMatchers ls fp i (seen, hits) = (seen, hits)" by simp
      from None have lc: "line_candidate ls fp i = []" by (simp add: line_candidate_def)
      from less.hyps[OF dec fresh_Suc[OF less.prems], of hits] t lc True up show ?thesis
        by (subst scan_line_heuristics.simps) simp
    next
      case (Some m)
      obtain label tst where m: "m = (label, tst)" by (cases m)
      define h where "h = \<lparr>filePath = fp, line = i + 1, matchLabel = label, snippet = line_snippet ls i\<rparr>"
      from Some m tm have t: "try_matchers keywordMatchers ls fp i (seen, hits) =
          (insert (mk_key label (i + 1) (line_snippet ls i)) seen, hits @ [h])"
        by (simp add: h_def)
      from Some m have lc: "line_candidate ls fp i = [h]" by (simp add: line_candidate_def h_def)
      from find_label_mem[OF Some[unfolded m]] have "label \<in> fst ` set keywordMatchers" by simp
      from fresh_step[OF less.prems this] have "fresh (insert (mk_key label (i + 1) (line_snippet ls i)) seen) (Suc i)" .
      from less.hyps[OF dec this, of "hits @ [h]"] t lc True up show ?thesis
        by (subst scan_line_heuristics.simps) simp
    qed
  qed
qed

lemma fresh_after_blocks:
  assumes "\<forall>c \<in> set cands. matchLabel c \<in> fst ` set blockPatterns"
  shows "fresh ({} \<union> hit_key ` set cands) 0"
  unfolding fresh_def
proof (intro ballI allI impI)
  fix label j c
  assume l: "label \<in> fst ` set keywordMatchers"
  show "mk_key label (j + 1) c \<notin> {} \<union> hit_key ` set cands"
  proof
    assume "mk_key label (j + 1) c \<in> {} \<union> hit_key ` set cands"
    then obtain h where h: "h \<in> set cands" "mk_key label (j + 1) c = mk_key (matchLabel h) (line h) (snippet h)"
      by (auto simp: hit_key_def)
    from assms h(1) have bl: "matchLabel h \<in> fst ` set blockPatterns" by blast
    from matcher_labels_no_colon l have nc1: "CHR '':'' \<notin> set label" by (rule bspec)
    from block_labels_no_colon bl have nc2: "CHR '':'' \<notin> set (matchLabel h)" by (rule bspec)
    from mk_key_inj[OF h(2) nc1 nc2] have "label = matchLabel h" by simp
    with l bl have "matchLabel h \<in> fst ` set keywordMatchers \<inter> fst ` set blockPatterns" by simp
    with labels_disjoint show False by simp
  qed
qed

text \<open>The scan as a whole: the block hits, de-duplicated, then the line hits.\<close>

lemma scanTextForPromptKeywords_spec:
  "\<exists>cands. block_candidates blockPatterns text fp = Some cands \<and>
     (\<forall>c \<in> set cands. matchLabel c \<in> fst ` set blockPatterns \<and> 1 \<le> line c \<and> filePath c = fp) \<and>
     scanTextForPromptKeywords text fp =
       Some (keep_first {} cands @ line_candidates (lines_of text) fp)"
proof -
  have sol: "\<forall>(label, ic, r, g) \<in> set blockPatterns. solid r" by code_simp
  from scan_blocks_spec[OF sol, of "text" fp "{}" "[]"] obtain cands where c:
    "block_candidates blockPatterns text fp = Some cands"
    "scan_blocks blockPatterns text fp ({}, []) = Some ({} \<union> hit_key ` set cands, [] @ keep_first {} cands)"
    "\<forall>c \<in> set cands. matchLabel c \<in> fst ` set blockPatterns \<and> 1 \<le> line c \<and> filePath c = fp"
    by blast
  from c(3) have "fresh ({} \<union> hit_key ` set cands) 0" by (intro fresh_after_blocks) blast
  from scan_line_heuristics_spec[OF this, of "lines_of text" fp "[] @ keep_first {} cands"] c
  show ?thesis
    by (intro exI[of _ cands]) (simp add: scanTextForPromptKeywords_def line_candidates_def)
qed

lemma keep_first_line_candidates:
  "fresh seen i \<Longrightarrow>
     keep_first seen (concat (map (line_candidate ls fp) [i..<length ls])) =
       concat (map (line_candidate ls fp) [i..<length ls])"
proof (induction "length ls - i" arbitrary: i seen rule: less_induct)
  case less
  show ?case
  proof (cases "i < length ls")
    case False
    then show ?thesis by simp
  next
    case True
    then have up: "[i..<length ls] = i # [Suc i..<length ls]" by (simp add: upt_conv_Cons)
    from True have dec: "length ls - Suc i < length ls - i" by simp
    show ?thesis
    proof (cases "find (\<lambda>(label, tst). tst (ls ! i)) keywordMatchers")
      case None
      then have lc: "line_candidate ls fp i = []" by (simp add: line_candidate_def)
      from less.hyps[OF dec fresh_Suc[OF less.prems]] lc show ?thesis by (simp add: up)
    next
      case (Some m)
      obtain label tst where m: "m = (label, tst)" by (cases m)
      define h where "h = \<lparr>filePath = fp, line = i + 1, matchLabel = label, snippet = line_snippet ls i\<rparr>"
      from Some m have lc: "line_candidate ls fp i = [h]" by (simp add: line_candidate_def h_def)
      from find_label_mem[OF Some[unfolded m]] have l: "label \<in> fst ` set keywordMatchers" by simp
      from less.prems l have "mk_key label (i + 1) (line_snippet ls i) \<notin> seen"
        unfolding fresh_def by blast
      then have nk: "hit_key h \<notin> seen" by (simp add: hit_key_def h_def)
      have hk: "hit_key h = mk_key label (i + 1) (line_snippet ls i)" by (simp add: hit_key_def h_def)
      from fresh_step[OF less.prems l, of "line_snippet ls i"] hk
      have "fresh (insert (hit_key h) seen) (Suc i)" by simp
      from less.hyps[OF dec this] lc nk show ?thesis by (simp add: up)
    qed
  qed
qed

subsection \<open>Whitespace normalisation\<close>

text \<open>
  The normal form as the specification words it, apart from the code: \<open>ws_words\<close> cuts a
  text into its words, the maximal runs of characters that are not white space, and
  \<open>spec_normalize\<close> puts one space between them, so that every run of white space between
  two words is one space and none is left at either end. \<open>spec_snippet\<close> is the normal
  form of the previous line, the line and the next line, joined by spaces; a line that
  does not exist counts as empty.
\<close>

fun ws_words :: "string \<Rightarrow> string list" where
  "ws_words [] = []"
| "ws_words (c # cs) =
     (if is_space c then ws_words cs
      else (case cs of
              [] \<Rightarrow> [[c]]
            | d # ds \<Rightarrow>
                if is_space d then [c] # ws_words cs
                else (case ws_words cs of [] \<Rightarrow> [[c]] | w # ws \<Rightarrow> (c # w) # ws)))"

definition spec_normalize :: "string \<Rightarrow> string" where
  "spec_normalize s = join_with '' '' (ws_words s)"

definition spec_snippet :: "string list \<Rightarrow> nat \<Rightarrow> string" where
  "spec_snippet ls i =
     spec_normalize
       ((if 0 < i then ls ! (i - 1) else []) @ '' '' @ ls ! i @ '' '' @
        (if i + 1 < length ls then ls ! (i + 1) else []))"

lemma ws_words_Nil_iff: "ws_words s = [] \<longleftrightarrow> (\<forall>c \<in> set s. is_space c)"
  by (induction s) (auto split: list.splits)

lemma ws_words_word:
  "w \<in> set (ws_words s) \<Longrightarrow> w \<noteq> [] \<and> (\<forall>c \<in> set w. \<not> is_space c)"
proof (induction s arbitrary: w)
  case Nil
  then show ?case by simp
next
  case (Cons c cs)
  show ?case
  proof (cases "is_space c")
    case True
    with Cons show ?thesis by simp
  next
    case False
    show ?thesis
    proof (cases cs)
      case Nil
      with False Cons.prems show ?thesis by simp
    next
      case (Cons d ds)
      show ?thesis
      proof (cases "is_space d")
        case True
        with False Cons Cons.prems Cons.IH show ?thesis by auto
      next
        case nd: False
        show ?thesis
        proof (cases "ws_words cs")
          case Nil
          with False Cons nd Cons.prems show ?thesis by simp
        next
          case (Cons v vs)
          with False \<open>cs = d # ds\<close> nd Cons.prems have "w = c # v \<or> w \<in> set vs" by auto
          with Cons.IH[of v] Cons.IH[of w] Cons False show ?thesis by auto
        qed
      qed
    qed
  qed
qed

lemma ws_words_space: "is_space s \<Longrightarrow> ws_words (a @ s # t) = ws_words a @ ws_words t"
proof (induction a)
  case Nil
  then show ?case by simp
next
  case (Cons c a)
  show ?case
  proof (cases "is_space c")
    case True
    with Cons show ?thesis by simp
  next
    case False
    show ?thesis
    proof (cases a)
      case Nil
      with False Cons.prems show ?thesis by simp
    next
      case (Cons d ds)
      show ?thesis
      proof (cases "is_space d")
        case True
        with False Cons Cons.IH Cons.prems show ?thesis by simp
      next
        case nd: False
        with Cons have "ws_words a \<noteq> []"
          using ws_words_Nil_iff[of a] by (auto simp del: ws_words.simps)
        then obtain v vs where "ws_words a = v # vs" by (cases "ws_words a") auto
        with False Cons nd Cons.IH Cons.prems show ?thesis by simp
      qed
    qed
  qed
qed

lemma join_with_Cons_Cons: "join_with sep ((c # w) # ws) = c # join_with sep (w # ws)"
  by (cases ws) auto

lemma join_with_Cons: "join_with sep (w # ws) = (if ws = [] then w else w @ sep @ join_with sep ws)"
  by (cases ws) auto

lemma join_with_Nil_iff: "(\<forall>w \<in> set ws. w \<noteq> []) \<Longrightarrow> join_with sep ws = [] \<longleftrightarrow> ws = []"
  by (cases ws) (auto simp: join_with_Cons)

lemma join_with_hd:
  "ws \<noteq> [] \<Longrightarrow> \<forall>w \<in> set ws. w \<noteq> [] \<and> (\<forall>c \<in> set w. P c) \<Longrightarrow> P (hd (join_with sep ws))"
  by (cases ws) (auto simp: join_with_Cons)

lemma join_with_last:
  "ws \<noteq> [] \<Longrightarrow> \<forall>w \<in> set ws. w \<noteq> [] \<and> (\<forall>c \<in> set w. P c) \<Longrightarrow> P (last (join_with sep ws))"
proof (induction ws)
  case Nil
  then show ?case by simp
next
  case (Cons w ws)
  show ?case
  proof (cases "ws = []")
    case True
    with Cons.prems show ?thesis by simp
  next
    case False
    with Cons have "P (last (join_with sep ws))" by simp
    moreover from False Cons.prems have "join_with sep ws \<noteq> []"
      by (subst join_with_Nil_iff) auto
    ultimately show ?thesis using False by (simp add: join_with_Cons)
  qed
qed

text \<open>What \<^verbatim>\<open>replace(/\s+/g, " ")\<close> leaves: the words with one space between them, one space
  before them when the text began with white space and one after them when it ended with it.\<close>

lemma collapse_ws_words:
  "collapse_ws b s =
     (if \<not> b \<and> s \<noteq> [] \<and> is_space (hd s) then '' '' else []) @ spec_normalize s @
     (if ws_words s \<noteq> [] \<and> is_space (last s) then '' '' else [])"
proof (induction s arbitrary: b)
  case Nil
  then show ?case by (simp add: spec_normalize_def)
next
  case (Cons c cs)
  show ?case
  proof (cases "is_space c")
    case True
    have "ws_words cs \<noteq> [] \<Longrightarrow> cs \<noteq> []" by auto
    with True Cons[of True] show ?thesis by (auto simp: spec_normalize_def)
  next
    case False
    show ?thesis
    proof (cases cs)
      case Nil
      with False show ?thesis by (simp add: spec_normalize_def)
    next
      case (Cons d ds)
      show ?thesis
      proof (cases "is_space d")
        case True
        show ?thesis
        proof (cases "ws_words cs = []")
          case e: True
          then have "is_space (last cs)"
            using Cons ws_words_Nil_iff[of cs] by (auto simp del: ws_words.simps)
          with False True Cons e Cons.IH[of False] show ?thesis
            by (simp add: spec_normalize_def)
        next
          case ne: False
          with False True Cons Cons.IH[of False] show ?thesis
            by (simp add: spec_normalize_def join_with_Cons)
        qed
      next
        case nd: False
        with Cons have "ws_words cs \<noteq> []"
          using ws_words_Nil_iff[of cs] by (auto simp del: ws_words.simps)
        then obtain v vs where v: "ws_words cs = v # vs" by (cases "ws_words cs") auto
        with False nd Cons Cons.IH[of False] show ?thesis
          by (simp add: spec_normalize_def join_with_Cons_Cons)
      qed
    qed
  qed
qed

lemma trim_words:
  assumes "J \<noteq> [] \<Longrightarrow> \<not> is_space (hd J) \<and> \<not> is_space (last J)" "J = [] \<Longrightarrow> t = []"
    "l = [] \<or> l = '' ''" "t = [] \<or> t = '' ''"
  shows "trim (l @ J @ t) = J"
proof (cases "J = []")
  case True
  with assms have "l @ J @ t = [] \<or> l @ J @ t = '' ''" by auto
  then show ?thesis using True by (auto simp: trim_def is_space_def)
next
  case False
  with assms(1) have h: "\<not> is_space (hd J)" "\<not> is_space (last J)" by auto
  from False obtain j js where J: "J = j # js" by (cases J) auto
  with h(1) have nj: "\<not> is_space j" by simp
  have sp: "is_space CHR '' ''" by (simp add: is_space_def)
  from assms(3) nj sp have a: "dropWhile is_space (l @ J @ t) = J @ t"
    by (auto simp: J)
  from False obtain k ks where K: "J = ks @ [k]" by (cases J rule: rev_cases) auto
  with h(2) have nk: "\<not> is_space k" by simp
  from assms(4) nk sp have "dropWhile is_space (rev (J @ t)) = rev J"
    by (auto simp: K)
  with a show ?thesis by (simp add: trim_def)
qed

lemma normalizeWhitespace_spec: "normalizeWhitespace s = spec_normalize s"
proof -
  have w: "\<forall>w \<in> set (ws_words s). w \<noteq> [] \<and> (\<forall>c \<in> set w. \<not> is_space c)"
    using ws_words_word by blast
  have 1: "\<not> is_space (hd (spec_normalize s)) \<and> \<not> is_space (last (spec_normalize s))"
    if "spec_normalize s \<noteq> []"
  proof -
    from that have "ws_words s \<noteq> []" by (auto simp: spec_normalize_def)
    from join_with_hd[OF this w] join_with_last[OF this w] show ?thesis
      by (simp add: spec_normalize_def)
  qed
  have 2: "(if ws_words s \<noteq> [] \<and> is_space (last s) then '' '' else []) = []"
    if "spec_normalize s = []"
  proof -
    from w have "\<forall>w \<in> set (ws_words s). w \<noteq> []" by blast
    from join_with_Nil_iff[OF this] that have "ws_words s = []" by (simp add: spec_normalize_def)
    then show ?thesis by simp
  qed
  show ?thesis
    unfolding normalizeWhitespace_def collapse_ws_words[of False s]
    by (rule trim_words[OF 1 2]) auto
qed

lemma line_snippet_spec: "line_snippet ls i = spec_snippet ls i"
proof -
  define p where "p = (if 0 < i then ls ! (i - 1) else [])"
  define n where "n = (if i + 1 < length ls then ls ! (i + 1) else [])"
  define c where "c = ls ! i"
  have sp: "is_space CHR '' ''" "is_space CHR 0x0A" by (simp_all add: is_space_def in_range_def)
  have sep: "ws_words (a @ '' '' @ [CHR 0x0A] @ '' '' @ b) = ws_words a @ ws_words b" for a b
    using ws_words_space[OF sp(1), of a "CHR 0x0A # CHR '' '' # b"] sp by simp
  have one: "ws_words (a @ '' '' @ b) = ws_words a @ ws_words b" for a b
    using ws_words_space[OF sp(1), of a b] by simp
  have "ws_words (join_with ('' '' @ [CHR 0x0A] @ '' '') (filter (\<lambda>s. s \<noteq> []) [p, c, n])) =
          ws_words p @ ws_words c @ ws_words n"
    using sep[of p "c @ '' '' @ [CHR 0x0A] @ '' '' @ n"] sep[of c n] sep[of p c] sep[of p n]
    by (cases "p = []"; cases "c = []"; cases "n = []") simp_all
  moreover have "ws_words (p @ '' '' @ c @ '' '' @ n) = ws_words p @ ws_words c @ ws_words n"
    using one[of p "c @ '' '' @ n"] one[of c n] by simp
  ultimately show ?thesis
    by (simp add: line_snippet_def spec_snippet_def normalizeWhitespace_spec spec_normalize_def
          Let_def p_def n_def c_def)
qed

subsection \<open>One hit for each line\<close>

lemma line_candidate_line: "h \<in> set (line_candidate ls fp i) \<Longrightarrow> line h = i + 1"
  by (auto simp: line_candidate_def split: option.splits)

lemma line_candidate_label:
  assumes "h \<in> set (line_candidate ls fp i)"
  shows "matchLabel h \<in> fst ` set keywordMatchers"
proof (cases "find (\<lambda>(label, tst). tst (ls ! i)) keywordMatchers")
  case None
  with assms show ?thesis by (simp add: line_candidate_def)
next
  case (Some m)
  obtain label tst where m: "m = (label, tst)" by (cases m)
  from find_label_mem[OF Some[unfolded m]] have "label \<in> fst ` set keywordMatchers" by simp
  with assms Some m show ?thesis by (simp add: line_candidate_def)
qed

lemma filter_line_candidates:
  assumes "i < n"
  shows "filter (\<lambda>h. line h = Suc i) (concat (map (line_candidate ls fp) [0..<n])) = line_candidate ls fp i"
proof -
  have other: "filter (\<lambda>h. line h = Suc i) (line_candidate ls fp j) = []" if "j \<noteq> i" for j
    using that by (auto simp: filter_empty_conv dest: line_candidate_line)
  have same: "filter (\<lambda>h. line h = Suc i) (line_candidate ls fp i) = line_candidate ls fp i"
    by (auto simp: filter_id_conv dest: line_candidate_line)
  have "filter (\<lambda>h. line h = Suc i) (concat (map (line_candidate ls fp) js)) =
          (concat (map (\<lambda>j. if j = i then line_candidate ls fp i else []) js))" for js
    by (induction js) (auto simp: other same)
  moreover have "concat (map (\<lambda>j. if j = i then line_candidate ls fp i else []) [0..<n]) = line_candidate ls fp i"
    using assms
  proof (induction n)
    case 0
    then show ?case by simp
  next
    case (Suc n)
    show ?case
    proof (cases "i < n")
      case True
      with Suc.IH show ?thesis by simp
    next
      case False
      with Suc.prems have "i = n" by simp
      moreover have "concat (map (\<lambda>j. if j = n then line_candidate ls fp n else []) [0..<n]) = []"
        by (induction n) auto
      ultimately show ?thesis by simp
    qed
  qed
  ultimately show ?thesis by simp
qed

text \<open>
  Claim C6: the hits of the scan are block hits followed by line hits, and the line hits
  of line \<open>i\<close> are none when no matcher accepts the line and otherwise the one hit that
  carries the label of the first matcher of the table that accepts it. Its snippet is the
  previous line, the line and the next line, joined, with every run of white space made
  one space and none left at the ends.
\<close>

theorem line_heuristics_first_matcher_wins:
  "\<exists>bh lh. scanTextForPromptKeywords text fp = Some (bh @ lh) \<and>
     (\<forall>h \<in> set bh. matchLabel h \<in> fst ` set blockPatterns) \<and>
     (\<forall>h \<in> set lh. matchLabel h \<in> fst ` set keywordMatchers) \<and>
     (\<forall>i < length (lines_of text).
        filter (\<lambda>h. line h = i + 1) lh =
          (case find (\<lambda>(label, tst). tst (lines_of text ! i)) keywordMatchers of
             None \<Rightarrow> []
           | Some (label, tst) \<Rightarrow>
               [\<lparr>filePath = fp, line = i + 1, matchLabel = label,
                 snippet = spec_snippet (lines_of text) i\<rparr>]))"
proof -
  from scanTextForPromptKeywords_spec[of "text" fp] obtain cands where c:
    "\<forall>c \<in> set cands. matchLabel c \<in> fst ` set blockPatterns \<and> 1 \<le> line c \<and> filePath c = fp"
    "scanTextForPromptKeywords text fp = Some (keep_first {} cands @ line_candidates (lines_of text) fp)"
    by blast
  have sub: "set (keep_first seen xs) \<subseteq> set xs" for seen xs
    by (induction xs arbitrary: seen) auto
  show ?thesis
  proof (rule exI[of _ "keep_first {} cands"], rule exI[of _ "line_candidates (lines_of text) fp"],
         intro conjI)
    show "scanTextForPromptKeywords text fp = Some (keep_first {} cands @ line_candidates (lines_of text) fp)"
      by (rule c(2))
    show "\<forall>h \<in> set (keep_first {} cands). matchLabel h \<in> fst ` set blockPatterns"
      using c(1) sub[of "{}" cands] by blast
    show "\<forall>h \<in> set (line_candidates (lines_of text) fp). matchLabel h \<in> fst ` set keywordMatchers"
      by (auto simp: line_candidates_def dest: line_candidate_label)
    show "\<forall>i < length (lines_of text).
        filter (\<lambda>h. line h = i + 1) (line_candidates (lines_of text) fp) =
          (case find (\<lambda>(label, tst). tst (lines_of text ! i)) keywordMatchers of
             None \<Rightarrow> []
           | Some (label, tst) \<Rightarrow>
               [\<lparr>filePath = fp, line = i + 1, matchLabel = label,
                 snippet = spec_snippet (lines_of text) i\<rparr>])"
      unfolding line_snippet_spec[symmetric]
      by (simp add: line_candidates_def filter_line_candidates line_candidate_def)
  qed
qed

text \<open>Three lines with white space to collapse and to trim; the second is accepted by the
  first matcher of the table and by the second.\<close>

definition spaced_lines :: string where
  "spaced_lines =
     ''  a   a  '' @ [CHR 0x0A, CHR 0x09] @ ''const system_prompt = role:  system  '' @
     [CHR 0x0D, CHR 0x0A] @ ''b  ''"

theorem line_heuristics_first_matcher_wins_witness:
  "length (lines_of spaced_lines) = 3 \<and>
   (\<exists>bh lh. scanTextForPromptKeywords spaced_lines ''f'' = Some (bh @ lh) \<and>
     filter (\<lambda>h. line h = 1) lh = [] \<and>
     filter (\<lambda>h. line h = 2) lh =
       [\<lparr>filePath = ''f'', line = 2, matchLabel = ''role_system'',
         snippet = ''a a const system_prompt = role: system b''\<rparr>] \<and>
     filter (\<lambda>h. line h = 3) lh = [])"
proof -
  have n: "length (lines_of spaced_lines) = 3" by code_simp
  have c0: "find (\<lambda>(label, tst). tst (lines_of spaced_lines ! 0)) keywordMatchers = None"
    by code_simp
  have c2: "find (\<lambda>(label, tst). tst (lines_of spaced_lines ! 2)) keywordMatchers = None"
    by code_simp
  have c1: "(case find (\<lambda>(label, tst). tst (lines_of spaced_lines ! 1)) keywordMatchers of
             None \<Rightarrow> []
           | Some (label, tst) \<Rightarrow>
               [\<lparr>filePath = ''f'', line = 1 + 1, matchLabel = label,
                 snippet = spec_snippet (lines_of spaced_lines) 1\<rparr>]) =
       [\<lparr>filePath = ''f'', line = 2, matchLabel = ''role_system'',
         snippet = ''a a const system_prompt = role: system b''\<rparr>]"
    by code_simp
  from line_heuristics_first_matcher_wins[of spaced_lines "''f''"] obtain bh lh where h:
    "scanTextForPromptKeywords spaced_lines ''f'' = Some (bh @ lh)"
    "\<forall>i < length (lines_of spaced_lines).
        filter (\<lambda>h. line h = i + 1) lh =
          (case find (\<lambda>(label, tst). tst (lines_of spaced_lines ! i)) keywordMatchers of
             None \<Rightarrow> []
           | Some (label, tst) \<Rightarrow>
               [\<lparr>filePath = ''f'', line = i + 1, matchLabel = label,
                 snippet = spec_snippet (lines_of spaced_lines) i\<rparr>])"
    by blast
  from n have i: "0 < length (lines_of spaced_lines)" "1 < length (lines_of spaced_lines)"
    "2 < length (lines_of spaced_lines)" by simp_all
  from h(2)[rule_format, OF i(1)] c0 have f1: "filter (\<lambda>h. line h = 1) lh = []" by simp
  from h(2)[rule_format, OF i(2)] c1 have f2: "filter (\<lambda>h. line h = 2) lh =
       [\<lparr>filePath = ''f'', line = 2, matchLabel = ''role_system'',
         snippet = ''a a const system_prompt = role: system b''\<rparr>]"
    by (simp add: numeral_2_eq_2)
  from h(2)[rule_format, OF i(3)] c2 have f3: "filter (\<lambda>h. line h = 3) lh = []"
    by (simp add: numeral_3_eq_3)
  from n h(1) f1 f2 f3 show ?thesis by blast
qed

subsection \<open>De-duplication\<close>

text \<open>
  De-duplication as the specification words it: the key of a hit is its label, its line
  and the first 50 characters of its snippet, and a hit is dropped exactly when a hit with
  the same key was emitted before it; \<open>emitted\<close> holds the keys emitted so far.
\<close>

definition spec_key :: "PromptKeywordHit \<Rightarrow> string \<times> nat \<times> string" where
  "spec_key h = (matchLabel h, line h, take 50 (snippet h))"

fun dedup_first :: "(string \<times> nat \<times> string) list \<Rightarrow> PromptKeywordHit list \<Rightarrow> PromptKeywordHit list" where
  "dedup_first emitted [] = []"
| "dedup_first emitted (h # hs) =
     (if spec_key h \<in> set emitted then dedup_first emitted hs
      else h # dedup_first (spec_key h # emitted) hs)"

text \<open>The string that the code uses as a key stands for the triple.\<close>

lemma hit_key_eq_iff:
  assumes "CHR '':'' \<notin> set (matchLabel h)" "CHR '':'' \<notin> set (matchLabel h')"
  shows "hit_key h = hit_key h' \<longleftrightarrow> spec_key h = spec_key h'"
proof
  assume "hit_key h = hit_key h'"
  from mk_key_inj[OF this[unfolded hit_key_def] assms] show "spec_key h = spec_key h'"
    by (simp add: spec_key_def)
next
  assume "spec_key h = spec_key h'"
  then show "hit_key h = hit_key h'" by (simp add: spec_key_def hit_key_def mk_key_def)
qed

lemma keep_first_dedup:
  assumes "\<forall>h \<in> set es \<union> set hs. CHR '':'' \<notin> set (matchLabel h)"
  shows "keep_first (hit_key ` set es) hs = dedup_first (map spec_key es) hs"
  using assms
proof (induction hs arbitrary: es)
  case Nil
  then show ?case by simp
next
  case (Cons h hs)
  have m: "hit_key h \<in> hit_key ` set es \<longleftrightarrow> spec_key h \<in> spec_key ` set es"
  proof
    assume "hit_key h \<in> hit_key ` set es"
    then obtain e where e: "e \<in> set es" "hit_key h = hit_key e" by auto
    with Cons.prems hit_key_eq_iff[of h e] show "spec_key h \<in> spec_key ` set es" by auto
  next
    assume "spec_key h \<in> spec_key ` set es"
    then obtain e where e: "e \<in> set es" "spec_key h = spec_key e" by auto
    with Cons.prems hit_key_eq_iff[of h e] show "hit_key h \<in> hit_key ` set es" by auto
  qed
  from Cons.prems have "\<forall>x \<in> set (h # es) \<union> set hs. CHR '':'' \<notin> set (matchLabel x)" by auto
  from Cons.IH[OF this] have s: "keep_first (insert (hit_key h) (hit_key ` set es)) hs =
      dedup_first (spec_key h # map spec_key es) hs" by simp
  from Cons.prems have "\<forall>x \<in> set es \<union> set hs. CHR '':'' \<notin> set (matchLabel x)" by auto
  from Cons.IH[OF this] m s show ?case by simp
qed

text \<open>
  Claim C5, as the code has it. The hits returned are the candidates, the matches of the
  block patterns first (pattern by pattern, in the order of the matches) and the hits of
  the line heuristics after them, without every candidate whose key (label, line, first
  50 characters of the snippet) was emitted before it. No key of a line hit is the key of
  another hit, so that every hit of a line heuristic is returned, also on a span where a
  block hit was emitted.
\<close>

theorem dedup_by_key_blocks_first:
  "\<exists>blocks. block_candidates blockPatterns text fp = Some blocks \<and>
     scanTextForPromptKeywords text fp =
       Some (dedup_first [] (blocks @ line_candidates (lines_of text) fp)) \<and>
     dedup_first [] (blocks @ line_candidates (lines_of text) fp) =
       dedup_first [] blocks @ line_candidates (lines_of text) fp"
proof -
  from scanTextForPromptKeywords_spec[of "text" fp] obtain cands where c:
    "block_candidates blockPatterns text fp = Some cands"
    "\<forall>c \<in> set cands. matchLabel c \<in> fst ` set blockPatterns \<and> 1 \<le> line c \<and> filePath c = fp"
    "scanTextForPromptKeywords text fp = Some (keep_first {} cands @ line_candidates (lines_of text) fp)"
    by blast
  let ?L = "line_candidates (lines_of text) fp"
  from c(2) have "fresh ({} \<union> hit_key ` set cands) 0" by (intro fresh_after_blocks) blast
  from keep_first_line_candidates[OF this, of "lines_of text" fp]
  have k: "keep_first {} (cands @ ?L) = keep_first {} cands @ ?L"
    by (simp add: keep_first_append line_candidates_def)
  have nb: "\<forall>h \<in> set cands. CHR '':'' \<notin> set (matchLabel h)"
    using c(2) block_labels_no_colon by blast
  have nl: "\<forall>h \<in> set ?L. CHR '':'' \<notin> set (matchLabel h)"
    using matcher_labels_no_colon by (auto simp: line_candidates_def dest!: line_candidate_label)
  from nb nl have "\<forall>h \<in> set [] \<union> set (cands @ ?L). CHR '':'' \<notin> set (matchLabel h)" by auto
  from keep_first_dedup[OF this] have d1: "keep_first {} (cands @ ?L) = dedup_first [] (cands @ ?L)"
    by simp
  from nb have "\<forall>h \<in> set [] \<union> set cands. CHR '':'' \<notin> set (matchLabel h)" by auto
  from keep_first_dedup[OF this] have d2: "keep_first {} cands = dedup_first [] cands" by simp
  from c(1,3) k d1 d2 show ?thesis by (intro exI[of _ cands]) simp
qed

text \<open>A text with the same block twice on a line that a line heuristic accepts.\<close>

definition dup_text :: string where
  "dup_text =
     ''system: '' @ [CHR 0x60] @ ''role system'' @ [CHR 0x60] @
     '' system: '' @ [CHR 0x60] @ ''role system'' @ [CHR 0x60]"

theorem dedup_by_key_blocks_first_witness:
  "block_candidates blockPatterns dup_text ''f'' =
     Some [\<lparr>filePath = ''f'', line = 1, matchLabel = ''js_ts_system_template_literal'',
             snippet = ''role system''\<rparr>,
           \<lparr>filePath = ''f'', line = 1, matchLabel = ''js_ts_system_template_literal'',
             snippet = ''role system''\<rparr>] \<and>
   line_candidates (lines_of dup_text) ''f'' =
     [\<lparr>filePath = ''f'', line = 1, matchLabel = ''role_system'', snippet = dup_text\<rparr>] \<and>
   scanTextForPromptKeywords dup_text ''f'' =
     Some [\<lparr>filePath = ''f'', line = 1, matchLabel = ''js_ts_system_template_literal'',
             snippet = ''role system''\<rparr>,
           \<lparr>filePath = ''f'', line = 1, matchLabel = ''role_system'', snippet = dup_text\<rparr>]"
proof -
  have b: "block_candidates blockPatterns dup_text ''f'' =
     Some [\<lparr>filePath = ''f'', line = 1, matchLabel = ''js_ts_system_template_literal'',
             snippet = ''role system''\<rparr>,
           \<lparr>filePath = ''f'', line = 1, matchLabel = ''js_ts_system_template_literal'',
             snippet = ''role system''\<rparr>]"
    by code_simp
  have l: "line_candidates (lines_of dup_text) ''f'' =
     [\<lparr>filePath = ''f'', line = 1, matchLabel = ''role_system'', snippet = dup_text\<rparr>]"
    by code_simp
  from dedup_by_key_blocks_first[of dup_text "''f''"] b l
  show ?thesis by (simp add: spec_key_def)
qed

text \<open>
  Claim C5 as stated fails where a block and a line heuristic fire on the same span: the
  block hit does not take the place of the line hit, both are returned.
\<close>

theorem block_hit_and_line_hit_on_one_span:
  "scanTextForPromptKeywords (''system: '' @ [CHR 0x60] @ ''role system'' @ [CHR 0x60]) ''f'' =
     Some [\<lparr>filePath = ''f'', line = 1, matchLabel = ''js_ts_system_template_literal'',
             snippet = ''role system''\<rparr>,
           \<lparr>filePath = ''f'', line = 1, matchLabel = ''role_system'',
             snippet = ''system: '' @ [CHR 0x60] @ ''role system'' @ [CHR 0x60]\<rparr>]"
  by code_simp

subsection \<open>Snippets and line numbers\<close>

lemma test_solid:
  assumes "test ic r l" "solid r"
  shows "\<exists>c \<in> set l. \<not> is_space c"
proof -
  from assms(1) obtain i mt st where "search ic r None l 0 = Some (i, mt, st)"
    by (auto simp: test_def)
  from search_Some[OF this] obtain q where q: "first_match ic r (pv_at None l q) (drop q l) = Some st"
    by blast
  from first_match_Some[OF q] assms(2) obtain u where "drop q l = u @ rest st" "\<exists>c \<in> set u. \<not> is_space c"
    by blast
  then obtain c where "c \<in> set (drop q l)" "\<not> is_space c" by auto
  then show ?thesis by (auto dest: in_set_dropD)
qed

lemma matchers_need_text:
  assumes "(label, tst) \<in> set keywordMatchers" "tst l"
  shows "\<exists>c \<in> set l. \<not> is_space c"
proof -
  have s: "solid role_re" "solid system_prompt_re" "solid system_message_re" "solid messages_re"
    "solid you_are_re" "solid prompt_re" "solid variants_re"
    by code_simp+
  from assms show ?thesis
    by (auto simp: keywordMatchers_def dest: test_solid[OF _ s(1)] test_solid[OF _ s(2)]
        test_solid[OF _ s(3)] test_solid[OF _ s(4)] test_solid[OF _ s(5)] test_solid[OF _ s(6)]
        test_solid[OF _ s(7)])
qed

lemma collapse_ws_keeps: "c \<in> set v \<Longrightarrow> \<not> is_space c \<Longrightarrow> c \<in> set (collapse_ws b v)"
  by (induction v arbitrary: b) auto

lemma dropWhile_keeps: "c \<in> set v \<Longrightarrow> \<not> P c \<Longrightarrow> c \<in> set (dropWhile P v)"
  by (induction v) auto

lemma normalizeWhitespace_keeps:
  "c \<in> set v \<Longrightarrow> \<not> is_space c \<Longrightarrow> c \<in> set (normalizeWhitespace v)"
  by (simp add: normalizeWhitespace_def trim_def collapse_ws_keeps dropWhile_keeps)

lemma join_with_keeps: "x \<in> set xs \<Longrightarrow> c \<in> set x \<Longrightarrow> c \<in> set (join_with sep xs)"
  by (induction sep xs rule: join_with.induct) auto

lemma line_snippet_nonempty:
  assumes "c \<in> set (ls ! i)" "\<not> is_space c"
  shows "line_snippet ls i \<noteq> []"
proof -
  from assms(1) have "ls ! i \<noteq> []" by auto
  then have "ls ! i \<in> set (filter (\<lambda>s. s \<noteq> [])
      [if i > 0 then ls ! (i - 1) else [], ls ! i, if i + 1 < length ls then ls ! (i + 1) else []])"
    by simp
  from join_with_keeps[OF this assms(1)] normalizeWhitespace_keeps[OF _ assms(2)]
  have "c \<in> set (line_snippet ls i)" by (simp add: line_snippet_def Let_def)
  then show ?thesis by auto
qed

lemma find_mem: "find P xs = Some x \<Longrightarrow> x \<in> set xs"
  by (induction xs) (auto split: if_splits)

lemma line_candidate_snippet:
  assumes "h \<in> set (line_candidate ls fp i)"
  shows "snippet h \<noteq> []"
proof (cases "find (\<lambda>(label, tst). tst (ls ! i)) keywordMatchers")
  case None
  with assms show ?thesis by (simp add: line_candidate_def)
next
  case (Some m)
  obtain label tst where m: "m = (label, tst)" by (cases m)
  from find_label_mem[OF Some[unfolded m]] have t: "tst (ls ! i)" by simp
  from Some[unfolded m] have "(label, tst) \<in> set keywordMatchers"
    by (rule find_mem)
  from matchers_need_text[OF this t] obtain c where "c \<in> set (ls ! i)" "\<not> is_space c" by blast
  from line_snippet_nonempty[OF this] assms Some m show ?thesis by (simp add: line_candidate_def)
qed

lemma keyword_hits_invariant:
  "\<exists>hits. scanTextForPromptKeywords text fp = Some hits \<and>
     (\<forall>h \<in> set hits. 1 \<le> line h \<and> (matchLabel h \<in> fst ` set keywordMatchers \<longrightarrow> snippet h \<noteq> []))"
proof -
  from scanTextForPromptKeywords_spec[of "text" fp] obtain cands where c:
    "\<forall>c \<in> set cands. matchLabel c \<in> fst ` set blockPatterns \<and> 1 \<le> line c \<and> filePath c = fp"
    "scanTextForPromptKeywords text fp = Some (keep_first {} cands @ line_candidates (lines_of text) fp)"
    by blast
  have sub: "set (keep_first seen xs) \<subseteq> set xs" for seen xs
    by (induction xs arbitrary: seen) auto
  have b: "1 \<le> line h \<and> (matchLabel h \<in> fst ` set keywordMatchers \<longrightarrow> snippet h \<noteq> [])"
    if "h \<in> set (keep_first {} cands)" for h
  proof -
    from that sub[of "{}" cands] c(1) have "matchLabel h \<in> fst ` set blockPatterns" "1 \<le> line h" by blast+
    with labels_disjoint show ?thesis by blast
  qed
  have l: "1 \<le> line h \<and> snippet h \<noteq> []" if "h \<in> set (line_candidates (lines_of text) fp)" for h
    using that by (auto simp: line_candidates_def dest: line_candidate_line line_candidate_snippet)
  from c(2) b l show ?thesis by auto
qed

section \<open>Properties of the structural extractor\<close>

text \<open>The line numbers of the parser start at 1: \<open>linenos_ok\<close> says so of every call node of
  a tree.\<close>

fun linenos_ok :: "pynode \<Rightarrow> bool"
  and linenos_ok_all :: "pynode list \<Rightarrow> bool"
  and linenos_ok_kws :: "(string option \<times> pynode) list \<Rightarrow> bool"
  and linenos_ok_keys :: "pynode option list \<Rightarrow> bool"
where
  "linenos_ok (FunctionDef name children) = linenos_ok_all children"
| "linenos_ok (AsyncFunctionDef name children) = linenos_ok_all children"
| "linenos_ok (Call func args keywords lineno) =
     (1 \<le> lineno \<and> linenos_ok func \<and> linenos_ok_all args \<and> linenos_ok_kws keywords)"
| "linenos_ok (Constant c) = True"
| "linenos_ok (Name n) = True"
| "linenos_ok (JoinedStr vs) = linenos_ok_all vs"
| "linenos_ok (Attribute v a) = linenos_ok v"
| "linenos_ok (Dict ks vs) = (linenos_ok_keys ks \<and> linenos_ok_all vs)"
| "linenos_ok (ListNode elts) = linenos_ok_all elts"
| "linenos_ok (Other children) = linenos_ok_all children"
| "linenos_ok_all [] = True"
| "linenos_ok_all (nd # nds) = (linenos_ok nd \<and> linenos_ok_all nds)"
| "linenos_ok_kws [] = True"
| "linenos_ok_kws ((arg, v) # kws) = (linenos_ok v \<and> linenos_ok_kws kws)"
| "linenos_ok_keys [] = True"
| "linenos_ok_keys (None # ks) = linenos_ok_keys ks"
| "linenos_ok_keys (Some k # ks) = (linenos_ok k \<and> linenos_ok_keys ks)"


text \<open>An artifact of the call at line \<open>lineno\<close>: its text is not empty.\<close>

definition of_call :: "string \<Rightarrow> nat \<Rightarrow> PythonPrompt \<Rightarrow> bool" where
  "of_call fp lineno a = (prompt_text a \<noteq> [] \<and> line a = lineno \<and> filePath a = fp)"

lemma kw_results_of_call:
  "a \<in> set (kw_results fp stack callee lineno kws) \<Longrightarrow> of_call fp lineno a"
  by (induction kws) (auto simp: of_call_def mk_result_def split: option.splits if_splits)

lemma dict_results_of_call:
  assumes a: "a \<in> set (dict_results fp stack callee lineno ks vs)"
  shows "of_call fp lineno a"
proof -
  obtain r t where rt: "dict_loop (zip (map key_of ks) vs) (None, None) = (r, t)"
    by (cases "dict_loop (zip (map key_of ks) vs) (None, None)") auto
  have "dict_results fp stack callee lineno ks vs = [] \<or>
        (\<exists>s. t = Some s \<and> s \<noteq> [] \<and> dict_results fp stack callee lineno ks vs =
            [mk_result fp stack callee lineno
               (case r of None \<Rightarrow> ''unknown'' | Some s \<Rightarrow> if s \<noteq> [] then s else ''unknown'') s])"
    unfolding dict_results_def Let_def rt
    by (cases t) simp_all
  with a show ?thesis by (auto simp: mk_result_def of_call_def)
qed

lemma elt_results_of_call:
  "a \<in> set (elt_results fp stack callee lineno e) \<Longrightarrow> of_call fp lineno a"
  by (cases e) (auto dest: dict_results_of_call)

lemma arg_results_of_call:
  "a \<in> set (arg_results fp stack callee lineno e) \<Longrightarrow> of_call fp lineno a"
  by (cases e) (auto dest: dict_results_of_call elt_results_of_call)

lemma call_results_of_call:
  "a \<in> set (call_results fp stack func args kws lineno) \<Longrightarrow> of_call fp lineno a"
  by (auto simp: call_results_def Let_def split: if_splits
           dest: kw_results_of_call arg_results_of_call)

lemma visit_invariant:
  "linenos_ok nd \<Longrightarrow> a \<in> set (visit fp stack nd) \<Longrightarrow> prompt_text a \<noteq> [] \<and> 1 \<le> line a"
  "linenos_ok_all nds \<Longrightarrow> a \<in> set (visit_all fp stack nds) \<Longrightarrow> prompt_text a \<noteq> [] \<and> 1 \<le> line a"
  "linenos_ok_kws kws \<Longrightarrow> a \<in> set (visit_kws fp stack kws) \<Longrightarrow> prompt_text a \<noteq> [] \<and> 1 \<le> line a"
  "linenos_ok_keys ks \<Longrightarrow> a \<in> set (visit_keys fp stack ks) \<Longrightarrow> prompt_text a \<noteq> [] \<and> 1 \<le> line a"
proof (induction fp stack nd and fp stack nds and fp stack kws and fp stack ks
       rule: visit_visit_all_visit_kws_visit_keys.induct)
  case (3 fp stack func args kws lineno)
  from "3.prems"(2) consider "a \<in> set (call_results fp stack func args kws lineno)"
    | "a \<in> set (visit fp stack func)" | "a \<in> set (visit_all fp stack args)"
    | "a \<in> set (visit_kws fp stack kws)" by auto
  then show ?case
  proof cases
    case 1
    from call_results_of_call[OF 1] "3.prems"(1) show ?thesis by (simp add: of_call_def)
  next
    case 2
    with "3.IH"(1) "3.prems"(1) show ?thesis by simp
  next
    case 3
    with "3.IH"(2) "3.prems"(1) show ?thesis by simp
  next
    case 4
    with "3.IH"(3) "3.prems"(1) show ?thesis by simp
  qed
qed auto


lemma visit_text:
  "a \<in> set (visit fp stack nd) \<Longrightarrow> prompt_text a \<noteq> []"
  "a \<in> set (visit_all fp stack nds) \<Longrightarrow> prompt_text a \<noteq> []"
  "a \<in> set (visit_kws fp stack kws) \<Longrightarrow> prompt_text a \<noteq> []"
  "a \<in> set (visit_keys fp stack ks) \<Longrightarrow> prompt_text a \<noteq> []"
proof (induction fp stack nd and fp stack nds and fp stack kws and fp stack ks
       rule: visit_visit_all_visit_kws_visit_keys.induct)
  case (3 fp stack func args kws lineno)
  from "3.prems" consider "a \<in> set (call_results fp stack func args kws lineno)"
    | "a \<in> set (visit fp stack func)" | "a \<in> set (visit_all fp stack args)"
    | "a \<in> set (visit_kws fp stack kws)" by auto
  then show ?case
  proof cases
    case 1
    from call_results_of_call[OF 1] show ?thesis by (simp add: of_call_def)
  next
    case 2
    with "3.IH"(1) show ?thesis by simp
  next
    case 3
    with "3.IH"(2) show ?thesis by simp
  next
    case 4
    with "3.IH"(3) show ?thesis by simp
  qed
qed auto




subsection \<open>Roles of keyword arguments\<close>


text \<open>The callee \<^verbatim>\<open>client.chat.completions.create\<close>.\<close>

definition create_call :: pynode where
  "create_call = Attribute (Attribute (Attribute (Name ''client'') ''chat'') ''completions'') ''create''"



subsection \<open>The invariant of the artifacts\<close>

text \<open>
  Claim C8, as the code has it. The keyword scan returns; every hit has a line number
  that is at least 1, and a hit of a line heuristic has a snippet that is not empty. The
  snippet of a block hit is the text the group captured, which can be empty. Every
  artifact of the structural extractor has a text that is not empty, and its line is at
  least 1 when the line numbers of the call nodes are.
\<close>

theorem artifact_invariant:
  "(\<exists>hits. scanTextForPromptKeywords text fp = Some hits \<and>
      (\<forall>h \<in> set hits. 1 \<le> line h \<and>
         (matchLabel h \<in> fst ` set keywordMatchers \<longrightarrow> snippet h \<noteq> []))) \<and>
   (\<forall>a \<in> set (walk_dir parsed). prompt_text a \<noteq> []) \<and>
   ((\<forall>(path, tree) \<in> set parsed. \<forall>t. tree = Some t \<longrightarrow> linenos_ok t) \<longrightarrow>
      (\<forall>a \<in> set (walk_dir parsed). 1 \<le> line a))"
proof (intro conjI impI ballI)
  show "\<exists>hits. scanTextForPromptKeywords text fp = Some hits \<and>
      (\<forall>h \<in> set hits. 1 \<le> line h \<and>
         (matchLabel h \<in> fst ` set keywordMatchers \<longrightarrow> snippet h \<noteq> []))"
    by (rule keyword_hits_invariant)
next
  fix a assume "a \<in> set (walk_dir parsed)"
  then obtain path t where "(path, Some t) \<in> set parsed" "a \<in> set (visit path [] t)"
    by (auto simp: walk_dir_def extract_from_file_def split: option.splits)
  then show "prompt_text a \<noteq> []" using visit_text(1) by blast
next
  fix a
  assume ok: "\<forall>(path, tree) \<in> set parsed. \<forall>t. tree = Some t \<longrightarrow> linenos_ok t"
    and "a \<in> set (walk_dir parsed)"
  then obtain path t where pt: "(path, Some t) \<in> set parsed" "a \<in> set (visit path [] t)"
    by (auto simp: walk_dir_def extract_from_file_def split: option.splits)
  from ok pt(1) have "linenos_ok t" by auto
  from visit_invariant(1)[OF this pt(2)] show "1 \<le> line a" by simp
qed

definition sample_tree :: pynode where
  "sample_tree =
     FunctionDef ''ask''
       [Other [Call create_call []
                 [(Some ''system'', Constant (CStr ''S'')), (Some ''user'', Constant (CStr ''U''))] 3]]"

theorem artifact_invariant_witness:
  "(\<exists>h hits. scanTextForPromptKeywords spaced_lines ''f'' = Some (h # hits) \<and>
      list_all (\<lambda>h. 1 \<le> line h \<and> snippet h \<noteq> []) (h # hits)) \<and>
   linenos_ok sample_tree \<and>
   walk_dir [(''app.py'', Some sample_tree)] \<noteq> [] \<and>
   list_all (\<lambda>a. prompt_text a \<noteq> [] \<and> 1 \<le> line a) (walk_dir [(''app.py'', Some sample_tree)])"
proof -
  have ok: "linenos_ok sample_tree" by (simp add: sample_tree_def create_call_def)
  have ne: "walk_dir [(''app.py'', Some sample_tree)] \<noteq> []" by code_simp
  have s: "scanTextForPromptKeywords spaced_lines ''f'' =
          Some [\<lparr>filePath = ''f'', line = 2, matchLabel = ''role_system'',
                  snippet = ''a a const system_prompt = role: system b''\<rparr>]"
    by code_simp
  from artifact_invariant[of spaced_lines "''f''" "[(''app.py'', Some sample_tree)]"] ok
  obtain hits where h: "scanTextForPromptKeywords spaced_lines ''f'' = Some hits"
    "\<forall>h \<in> set hits. 1 \<le> line h \<and> (matchLabel h \<in> fst ` set keywordMatchers \<longrightarrow> snippet h \<noteq> [])"
    and p: "\<forall>a \<in> set (walk_dir [(''app.py'', Some sample_tree)]). prompt_text a \<noteq> [] \<and> 1 \<le> line a"
    by auto
  from h s have "list_all (\<lambda>h. 1 \<le> line h \<and> snippet h \<noteq> []) hits"
    by (auto simp: keywordMatchers_def)
  with h(1) s ok ne p show ?thesis by (auto simp: list_all_iff)
qed

text \<open>
  Claim C8 as stated fails for a block hit whose group captures nothing: an empty template
  literal after \<^verbatim>\<open>system:\<close> is a hit with an empty snippet.
\<close>

theorem block_hit_with_empty_snippet:
  "scanTextForPromptKeywords (''system: '' @ [CHR 0x60, CHR 0x60]) ''f'' =
     Some [\<lparr>filePath = ''f'', line = 1, matchLabel = ''js_ts_system_template_literal'', snippet = []\<rparr>]"
  by code_simp

end
